theory Spec2Isabelle
  imports Main "HOL-Library.AList" "HOL-Library.Multiset" "HOL-Library.Sublist"
begin

section \<open>Data model of cm.py\<close>

text \<open>
  The exceptions the core of cm.py can raise, as values. \<open>IndexError\<close> comes from
  \<open>heap[0]\<close> and \<open>heap.pop()\<close> on an empty list, \<open>KeyError\<close> from \<open>codebook[char]\<close>,
  \<open>AttributeError\<close> from \<open>node.left.char\<close> when \<open>node.left\<close> is \<open>None\<close>, \<open>ValueError\<close>
  from \<open>int(s, 2)\<close>, \<open>UnpicklingError\<close> from \<open>pickle.load\<close>. cm.py defines no exception
  of its own.
\<close>

datatype error =
  IndexError | KeyError | AttributeError | ValueError | UnpicklingError

text \<open>
  \<open>class Node\<close>: the four attributes \<open>char\<close>, \<open>freq\<close>, \<open>left\<close>, \<open>right\<close>, where \<open>None\<close>
  is a possible value of \<open>char\<close>, \<open>left\<close> and \<open>right\<close>. \<open>__lt__\<close> compares \<open>freq\<close> only.
\<close>

datatype 'a node =
  Node (char: "'a option") (freq: int) (left: "'a node option") (right: "'a node option")

definition node_lt :: "'a node \<Rightarrow> 'a node \<Rightarrow> bool" where
  "node_lt x y = (freq x < freq y)"

text \<open>
  A Python \<open>dict\<close> keeps its keys in insertion order, and the order of
  \<open>frequencies.items()\<close> decides the initial heap, so a dict is an association list;
  \<open>d[k] = v\<close> is \<open>AList.update k v d\<close> (in place for a key that is present, appended at the
  end otherwise) and \<open>d[k]\<close> is \<open>map_of d k\<close>, a \<open>KeyError\<close> at \<open>None\<close>.
\<close>

type_synonym 'a frequencies = "('a \<times> int) list"
type_synonym 'a codebook = "('a \<times> string) list"
type_synonym byte = nat

section \<open>calculate_frequencies\<close>

text \<open>
  \<open>frequencies = defaultdict(int); for char in text: frequencies[char] += 1\<close>.
  A missing key is first entered with \<open>int() = 0\<close> and then incremented. The model starts
  at the text; reading and decoding the file is outside it.
\<close>

fun incr :: "'a \<Rightarrow> 'a frequencies \<Rightarrow> 'a frequencies" where
  "incr c [] = [(c, 0 + 1)]"
| "incr c ((k, v) # kvs) = (if k = c then (k, v + 1) # kvs else (k, v) # incr c kvs)"

definition calculate_frequencies :: "'a list \<Rightarrow> 'a frequencies" where
  "calculate_frequencies text = foldl (\<lambda>fs c. incr c fs) [] text"

section \<open>heapq\<close>

text \<open>
  \<open>heapq\<close> is Python's standard library; \<open>heapify\<close>, \<open>heappop\<close> and \<open>heappush\<close> are
  transcribed from its reference implementation (\<open>Lib/heapq.py\<close>), where every comparison
  \<open>x < y\<close> of two heap items is \<open>Node.__lt__\<close>. The heap is a Python list; the helpers
  \<open>_siftdown\<close> and \<open>_siftup\<close> are only ever called with \<open>pos < len(heap)\<close>, so each read
  \<open>heap[i]\<close> below is in range.

  \<open>_siftdown(heap, startpos, pos)\<close>: \<open>newitem = heap[pos]\<close>, then
  \<open>while pos > startpos: parentpos = (pos - 1) >> 1; parent = heap[parentpos];
  if newitem < parent: heap[pos] = parent; pos = parentpos; continue; break\<close>, then
  \<open>heap[pos] = newitem\<close>.
\<close>

function siftdown_loop :: "'a node list \<Rightarrow> nat \<Rightarrow> nat \<Rightarrow> 'a node \<Rightarrow> 'a node list" where
  "siftdown_loop heap startpos pos newitem =
     (if pos > startpos then
        (let parentpos = (pos - 1) div 2;
             parent = heap ! parentpos
         in if node_lt newitem parent
            then siftdown_loop (heap[pos := parent]) startpos parentpos newitem
            else heap[pos := newitem])
      else heap[pos := newitem])"
  by pat_completeness auto
termination
  by (relation "measure (\<lambda>(heap, startpos, pos, newitem). pos)") auto

declare siftdown_loop.simps [simp del]

definition siftdown :: "'a node list \<Rightarrow> nat \<Rightarrow> nat \<Rightarrow> 'a node list" where
  "siftdown heap startpos pos = siftdown_loop heap startpos pos (heap ! pos)"

text \<open>
  \<open>_siftup(heap, pos)\<close>: \<open>endpos = len(heap); startpos = pos; newitem = heap[pos];
  childpos = 2*pos + 1\<close>, then
  \<open>while childpos < endpos: rightpos = childpos + 1;
  if rightpos < endpos and not heap[childpos] < heap[rightpos]: childpos = rightpos;
  heap[pos] = heap[childpos]; pos = childpos; childpos = 2*pos + 1\<close>, then
  \<open>heap[pos] = newitem; _siftdown(heap, startpos, pos)\<close>.
  The loop returns the heap and the position of the leaf it stopped at.
\<close>

function siftup_loop :: "'a node list \<Rightarrow> nat \<Rightarrow> nat \<Rightarrow> 'a node list \<times> nat" where
  "siftup_loop heap endpos pos =
     (let childpos = 2 * pos + 1 in
      if childpos < endpos then
        (let rightpos = childpos + 1;
             childpos = (if rightpos < endpos \<and> \<not> node_lt (heap ! childpos) (heap ! rightpos)
                         then rightpos else childpos)
         in siftup_loop (heap[pos := heap ! childpos]) endpos childpos)
      else (heap, pos))"
  by pat_completeness auto
termination
  by (relation "measure (\<lambda>(heap, endpos, pos). endpos - pos)") (auto simp: Let_def)

declare siftup_loop.simps [simp del]

definition siftup :: "'a node list \<Rightarrow> nat \<Rightarrow> 'a node list" where
  "siftup heap pos =
     (let endpos = length heap;
          startpos = pos;
          newitem = heap ! pos;
          (heap, pos) = siftup_loop heap endpos pos
      in siftdown (heap[pos := newitem]) startpos pos)"

text \<open>\<open>heappush(heap, item)\<close>: \<open>heap.append(item); _siftdown(heap, 0, len(heap)-1)\<close>.\<close>

definition heappush :: "'a node list \<Rightarrow> 'a node \<Rightarrow> 'a node list" where
  "heappush heap item = (let heap = heap @ [item] in siftdown heap 0 (length heap - 1))"

text \<open>
  \<open>heappop(heap)\<close>: \<open>lastelt = heap.pop()\<close> (an \<open>IndexError\<close> on the empty list), then
  \<open>if heap: returnitem = heap[0]; heap[0] = lastelt; _siftup(heap, 0); return returnitem\<close>,
  else \<open>return lastelt\<close>. The model returns the item and the heap left behind.
\<close>

definition heappop :: "'a node list \<Rightarrow> error + ('a node \<times> 'a node list)" where
  "heappop heap =
     (if heap = [] then Inl IndexError
      else (let lastelt = last heap;
                heap = butlast heap
            in if heap \<noteq> [] then
                 (let returnitem = heap ! 0;
                      heap = heap[0 := lastelt]
                  in Inr (returnitem, siftup heap 0))
               else Inr (lastelt, heap)))"

text \<open>\<open>heapify(x)\<close>: \<open>n = len(x); for i in reversed(range(n//2)): _siftup(x, i)\<close>.\<close>

definition heapify :: "'a node list \<Rightarrow> 'a node list" where
  "heapify x = (let n = length x in foldl siftup x (rev [0..<n div 2]))"

lemma siftdown_loop_length [simp]:
  "length (siftdown_loop heap startpos pos newitem) = length heap"
  by (induction heap startpos pos newitem rule: siftdown_loop.induct)
     (subst siftdown_loop.simps, simp add: Let_def)

lemma siftdown_length [simp]: "length (siftdown heap startpos pos) = length heap"
  by (simp add: siftdown_def)

lemma siftup_loop_length [simp]: "length (fst (siftup_loop heap endpos pos)) = length heap"
  by (induction heap endpos pos rule: siftup_loop.induct)
     (subst siftup_loop.simps, simp add: Let_def)

lemma siftup_length [simp]: "length (siftup heap pos) = length heap"
proof -
  obtain h p where hp: "siftup_loop heap (length heap) pos = (h, p)"
    by (cases "siftup_loop heap (length heap) pos")
  then have "length h = length heap"
    using siftup_loop_length [of heap "length heap" pos] by simp
  then show ?thesis by (simp add: siftup_def Let_def hp)
qed

lemma heappush_length [simp]: "length (heappush heap item) = Suc (length heap)"
  by (simp add: heappush_def Let_def)

lemma heappop_length: "heappop heap = Inr (x, heap') \<Longrightarrow> Suc (length heap') = length heap"
  by (cases heap rule: rev_cases) (auto simp: heappop_def Let_def split: if_splits)

section \<open>build_huffman_tree\<close>

text \<open>
  \<open>while len(heap) > 1: left = heappop(heap); right = heappop(heap);
  merged = Node(None, left.freq + right.freq); merged.left = left; merged.right = right;
  heappush(heap, merged)\<close>. The locals \<open>left\<close> and \<open>right\<close> are \<open>l\<close> and \<open>r\<close> here, the
  names \<open>left\<close> and \<open>right\<close> being the attributes of \<open>Node\<close>.
\<close>

function build_loop :: "'a node list \<Rightarrow> error + 'a node list" where
  "build_loop heap =
     (if length heap > 1 then
        (case heappop heap of
           Inl e \<Rightarrow> Inl e
         | Inr (l, heap1) \<Rightarrow>
             (case heappop heap1 of
                Inl e \<Rightarrow> Inl e
              | Inr (r, heap2) \<Rightarrow>
                  (let merged = Node None (freq l + freq r) (Some l) (Some r)
                   in build_loop (heappush heap2 merged))))
      else Inr heap)"
  by pat_completeness auto
termination
proof (relation "measure length")
  show "wf (measure length)" by simp
next
  fix heap :: "'a node list" and x2 x y x2a xa ya xb
  assume "1 < length heap" "heappop heap = Inr x2" "(x, y) = x2"
    "heappop y = Inr x2a" "(xa, ya) = x2a"
  then have "Suc (length y) = length heap" "Suc (length ya) = length y"
    using heappop_length [of heap x y] heappop_length [of y xa ya] by auto
  then show "(heappush ya xb, heap) \<in> measure length" by simp
qed

declare build_loop.simps [simp del]

text \<open>
  \<open>heap = [Node(char, freq) for char, freq in frequencies.items()]; heapq.heapify(heap)\<close>,
  the loop, and \<open>return heap[0]\<close>, an \<open>IndexError\<close> when the heap is empty.
\<close>

definition build_huffman_tree :: "'a frequencies \<Rightarrow> error + 'a node" where
  "build_huffman_tree frequencies =
     (let heap = map (\<lambda>(c, f). Node (Some c) f None None) frequencies;
          heap = heapify heap
      in case build_loop heap of
           Inl e \<Rightarrow> Inl e
         | Inr heap \<Rightarrow> (case heap of [] \<Rightarrow> Inl IndexError | root # _ \<Rightarrow> Inr root))"

section \<open>generate_codes, encode_text, write_encoded_text\<close>

text \<open>
  \<open>generate_codes(node, prefix, codebook)\<close>: a node whose \<open>char\<close> is not \<open>None\<close> binds
  \<open>codebook[node.char] = prefix\<close>; otherwise the function descends into \<open>node.left\<close> with
  \<open>prefix + "0"\<close> and then into \<open>node.right\<close> with \<open>prefix + "1"\<close>, on the one shared
  codebook. A child that is \<open>None\<close> raises \<open>AttributeError\<close> at \<open>node.char\<close>.
  \<open>compress_file\<close> calls it with the defaults, \<open>prefix = ""\<close> and an empty codebook.
  The parameter \<open>prefix\<close> is \<open>pre\<close> here, \<open>prefix\<close> being the prefix order on lists.
\<close>

fun generate_codes :: "'a node \<Rightarrow> string \<Rightarrow> 'a codebook \<Rightarrow> error + 'a codebook" where
  "generate_codes (Node ch f l r) pre codebook =
     (case ch of
        Some c \<Rightarrow> Inr (AList.update c pre codebook)
      | None \<Rightarrow>
          (case l of
             None \<Rightarrow> Inl AttributeError
           | Some ln \<Rightarrow>
               (case generate_codes ln (pre @ ''0'') codebook of
                  Inl e \<Rightarrow> Inl e
                | Inr codebook \<Rightarrow>
                    (case r of
                       None \<Rightarrow> Inl AttributeError
                     | Some rn \<Rightarrow> generate_codes rn (pre @ ''1'') codebook))))"

text \<open>\<open>''.join(codebook[char] for char in text)\<close>; \<open>codebook[char]\<close> raises \<open>KeyError\<close>.\<close>

fun encode_text :: "'a list \<Rightarrow> 'a codebook \<Rightarrow> error + string" where
  "encode_text [] codebook = Inr []"
| "encode_text (c # cs) codebook =
     (case map_of codebook c of
        None \<Rightarrow> Inl KeyError
      | Some code \<Rightarrow>
          (case encode_text cs codebook of
             Inl e \<Rightarrow> Inl e
           | Inr rest \<Rightarrow> Inr (code @ rest)))"

text \<open>
  \<open>int(s, 2)\<close> on a string of binary digits. On the strings this program passes to it
  (non-empty, of the characters 0 and 1 only) it is the binary value, most significant
  digit first. Python also accepts a sign, surrounding blanks, underscores and a \<open>0b\<close>
  head; no such string reaches it here, and the model raises \<open>ValueError\<close> for every
  string that is not a plain digit string.
\<close>

definition bit_string :: "string \<Rightarrow> bool" where
  "bit_string s = list_all (\<lambda>c. c = CHR ''0'' \<or> c = CHR ''1'') s"

definition int_base2 :: "string \<Rightarrow> error + nat" where
  "int_base2 s =
     (if s \<noteq> [] \<and> bit_string s
      then Inr (foldl (\<lambda>n c. 2 * n + (if c = CHR ''1'' then 1 else 0)) 0 s)
      else Inl ValueError)"

text \<open>\<open>bytearray(...)\<close> of integers raises \<open>ValueError\<close> for one outside \<open>range(256)\<close>.\<close>

fun bytearray :: "(error + nat) list \<Rightarrow> error + byte list" where
  "bytearray [] = Inr []"
| "bytearray (Inl e # xs) = Inl e"
| "bytearray (Inr v # xs) =
     (if v < 256
      then (case bytearray xs of Inl e \<Rightarrow> Inl e | Inr bs \<Rightarrow> Inr (v # bs))
      else Inl ValueError)"

text \<open>\<open>range(0, n, 8)\<close>.\<close>

definition range8 :: "nat \<Rightarrow> nat list" where
  "range8 n = map (\<lambda>k. 8 * k) [0..<(n + 7) div 8]"

text \<open>
  The bytes \<open>write_encoded_text\<close> appends to the file:
  \<open>padded_encoded_text = encoded_text + '0' * ((8 - len(encoded_text) % 8) % 8)\<close> and
  \<open>bytearray(int(padded_encoded_text[i:i+8], 2) for i in range(0, len(padded_encoded_text), 8))\<close>.
\<close>

definition pad_length :: "string \<Rightarrow> nat" where
  "pad_length encoded_text = (8 - length encoded_text mod 8) mod 8"

definition byte_array :: "string \<Rightarrow> error + byte list" where
  "byte_array encoded_text =
     (let padded_encoded_text = encoded_text @ replicate (pad_length encoded_text) CHR ''0''
      in bytearray (map (\<lambda>i. int_base2 (take 8 (drop i padded_encoded_text)))
                        (range8 (length padded_encoded_text))))"

text \<open>
  A file is its bytes. \<open>write_encoded_text\<close> opens the file in mode \<open>ab\<close> and appends.
\<close>

definition write_encoded_text :: "byte list \<Rightarrow> 'a list \<Rightarrow> 'a codebook \<Rightarrow> error + byte list" where
  "write_encoded_text file text codebook =
     (case encode_text text codebook of
        Inl e \<Rightarrow> Inl e
      | Inr encoded_text \<Rightarrow>
          (case byte_array encoded_text of
             Inl e \<Rightarrow> Inl e
           | Inr bs \<Rightarrow> Inr (file @ bs)))"

section \<open>decode_text and read_encoded_text\<close>

text \<open>
  \<open>reverse_codebook = {v: k for k, v in codebook.items()}\<close>: a later entry with the same
  code replaces the symbol of an earlier one.
\<close>

definition reverse_codebook :: "'a codebook \<Rightarrow> (string \<times> 'a) list" where
  "reverse_codebook codebook = foldl (\<lambda>d (k, v). AList.update v k d) [] codebook"

text \<open>
  The loop of \<open>decode_text\<close>: \<open>for bit in encoded_text: current_code += bit;
  if current_code in reverse_codebook: decoded_text.append(reverse_codebook[current_code]);
  current_code = ""\<close>. What is left in \<open>current_code\<close> at the end is dropped; the function
  has no statement that raises.
\<close>

fun decode_loop :: "(string \<times> 'a) list \<Rightarrow> string \<Rightarrow> string \<Rightarrow> 'a list \<Rightarrow> 'a list" where
  "decode_loop rc [] current_code decoded_text = decoded_text"
| "decode_loop rc (b # bits) current_code decoded_text =
     (let current_code = current_code @ [b]
      in case map_of rc current_code of
           Some c \<Rightarrow> decode_loop rc bits [] (decoded_text @ [c])
         | None \<Rightarrow> decode_loop rc bits current_code decoded_text)"

definition decode_text :: "string \<Rightarrow> 'a codebook \<Rightarrow> 'a list" where
  "decode_text encoded_text codebook = decode_loop (reverse_codebook codebook) encoded_text [] []"

text \<open>\<open>f'{byte:08b}'\<close>: the binary digits of the byte, filled with zeros to eight digits.\<close>

fun bin_digits :: "nat \<Rightarrow> string" where
  "bin_digits n =
     (if n < 2 then [if n = 1 then CHR ''1'' else CHR ''0'']
      else bin_digits (n div 2) @ [if n mod 2 = 1 then CHR ''1'' else CHR ''0''])"

declare bin_digits.simps [simp del]

definition format_08b :: "byte \<Rightarrow> string" where
  "format_08b b = replicate (8 - length (bin_digits b)) CHR ''0'' @ bin_digits b"

section \<open>pickle and the container file\<close>

text \<open>
  \<open>pickle\<close> is Python's standard library and is not modelled byte by byte: the container
  functions take it as a parameter, a pair of \<open>dumps\<close> (the bytes \<open>pickle.dump\<close> writes and
  \<open>pickle.dumps\<close> returns for a codebook) and \<open>load\<close> (what \<open>pickle.load\<close> returns on a
  file opened at its start, or the error it raises).
\<close>

record 'a pickle =
  dumps :: "'a codebook \<Rightarrow> byte list"
  load :: "byte list \<Rightarrow> error + 'a codebook"

text \<open>
  What the program relies on: loading a file that starts with the pickle of a codebook
  returns that codebook (its entries in their order), whatever follows the pickle.
\<close>

definition pickle_roundtrip :: "'a pickle \<Rightarrow> bool" where
  "pickle_roundtrip P =
     (\<forall>codebook rest. distinct (map fst codebook) \<longrightarrow>
        load P (dumps P codebook @ rest) = Inr codebook)"

text \<open>
  A small serializer with that property, to run the container functions on concrete
  inputs: the number of entries, then for each entry the symbol, the length of its code and
  the characters of the code, one number each. It stands in for \<open>pickle\<close> where a closed
  term is evaluated; nothing below depends on its layout.
\<close>

definition ser_entry :: "char \<times> string \<Rightarrow> byte list" where
  "ser_entry e = of_char (fst e) # length (snd e) # map of_char (snd e)"

fun deser_entries :: "nat \<Rightarrow> byte list \<Rightarrow> error + char codebook" where
  "deser_entries 0 bs = Inr []"
| "deser_entries (Suc n) (k # len # bs) =
     (if length bs < len then Inl UnpicklingError
      else (case deser_entries n (drop len bs) of
              Inl e \<Rightarrow> Inl e
            | Inr codebook \<Rightarrow> Inr ((char_of k, map char_of (take len bs)) # codebook)))"
| "deser_entries (Suc n) bs = Inl UnpicklingError"

definition simple_pickle :: "char pickle" where
  "simple_pickle =
     \<lparr> dumps = (\<lambda>codebook. length codebook # concat (map ser_entry codebook)),
       load = (\<lambda>file. case file of [] \<Rightarrow> Inl UnpicklingError | n # bs \<Rightarrow> deser_entries n bs) \<rparr>"

text \<open>\<open>write_header\<close> opens the file in mode \<open>wb\<close>: the file is the pickle alone.\<close>

definition write_header :: "'a pickle \<Rightarrow> 'a codebook \<Rightarrow> byte list" where
  "write_header P codebook = dumps P codebook"

definition read_header :: "'a pickle \<Rightarrow> byte list \<Rightarrow> error + 'a codebook" where
  "read_header P file = load P file"

text \<open>
  \<open>file.seek(len(pickle.dumps(codebook))); byte_data = file.read()\<close>: the bytes after the
  first \<open>len(pickle.dumps(codebook))\<close> ones, none when the file is shorter.
\<close>

definition byte_data :: "'a pickle \<Rightarrow> byte list \<Rightarrow> 'a codebook \<Rightarrow> byte list" where
  "byte_data P file codebook = drop (length (dumps P codebook)) file"

definition read_encoded_text :: "'a pickle \<Rightarrow> byte list \<Rightarrow> 'a codebook \<Rightarrow> 'a list" where
  "read_encoded_text P file codebook =
     (let encoded_text = concat (map format_08b (byte_data P file codebook))
      in decode_text encoded_text codebook)"

text \<open>
  \<open>compress_file\<close> and \<open>decompress_file\<close>, from the text of the input file to the bytes of
  the output file, and from the bytes of the input file to the text written out.
\<close>

definition compress_file :: "'a pickle \<Rightarrow> 'a list \<Rightarrow> error + byte list" where
  "compress_file P text =
     (let frequencies = calculate_frequencies text
      in case build_huffman_tree frequencies of
           Inl e \<Rightarrow> Inl e
         | Inr huffman_tree \<Rightarrow>
             (case generate_codes huffman_tree [] [] of
                Inl e \<Rightarrow> Inl e
              | Inr codebook \<Rightarrow>
                  write_encoded_text (write_header P codebook) text codebook))"

definition decompress_file :: "'a pickle \<Rightarrow> byte list \<Rightarrow> error + 'a list" where
  "decompress_file P file =
     (case read_header P file of
        Inl e \<Rightarrow> Inl e
      | Inr codebook \<Rightarrow> Inr (read_encoded_text P file codebook))"

section \<open>Frequency table\<close>

lemma incr_keys: "map fst (incr c fs) = (if c \<in> fst ` set fs then map fst fs else map fst fs @ [c])"
  by (induction fs) (force+)

lemma incr_distinct: "distinct (map fst fs) \<Longrightarrow> distinct (map fst (incr c fs))"
  by (simp add: incr_keys)

lemma incr_map_of:
  "map_of (incr c fs) k =
     (if k = c then Some (case map_of fs c of None \<Rightarrow> 1 | Some v \<Rightarrow> v + 1) else map_of fs k)"
  by (induction fs) (auto)

lemma incr_sum: "sum_list (map snd (incr c fs)) = sum_list (map snd fs) + 1"
  by (induction fs) (auto)

lemma foldl_incr_distinct:
  "distinct (map fst fs) \<Longrightarrow> distinct (map fst (foldl (\<lambda>fs c. incr c fs) fs text))"
  by (induction "text" arbitrary: fs) (simp_all add: incr_distinct)

lemma foldl_incr_sum:
  "sum_list (map snd (foldl (\<lambda>fs c. incr c fs) fs text)) = sum_list (map snd fs) + int (length text)"
  by (induction "text" arbitrary: fs) (simp_all add: incr_sum)

lemma foldl_incr_map_of:
  "map_of (foldl (\<lambda>fs c. incr c fs) fs text) k =
     (if k \<in> set text
      then Some ((case map_of fs k of None \<Rightarrow> 0 | Some v \<Rightarrow> v) + int (count_list text k))
      else map_of fs k)"
proof (induction "text" arbitrary: fs)
  case Nil
  show ?case by simp
next
  case (Cons c cs)
  show ?case
    by (simp add: Cons.IH incr_map_of split: option.splits)
qed

lemma calculate_frequencies_distinct: "distinct (map fst (calculate_frequencies text))"
  unfolding calculate_frequencies_def by (rule foldl_incr_distinct) simp

lemma calculate_frequencies_map_of:
  "map_of (calculate_frequencies text) k =
     (if k \<in> set text then Some (int (count_list text k)) else None)"
  unfolding calculate_frequencies_def by (simp add: foldl_incr_map_of)

lemma calculate_frequencies_keys: "set (map fst (calculate_frequencies text)) = set text"
proof -
  have "dom (map_of (calculate_frequencies text)) = set text"
    by (auto simp: calculate_frequencies_map_of dom_def)
  then show ?thesis by (simp add: dom_map_of_conv_image_fst)
qed

lemma calculate_frequencies_sum:
  "sum_list (map snd (calculate_frequencies text)) = int (length text)"
  unfolding calculate_frequencies_def by (simp add: foldl_incr_sum)

lemma count_list_pos: "k \<in> set xs \<Longrightarrow> 0 < count_list xs k"
  by (induction xs) auto

text \<open>
  C8: the frequency table has one entry for each distinct symbol of the input and none for
  any other symbol (its keys are distinct and \<open>map_of\<close> is defined exactly on the symbols of
  the text), each entry is the number of occurrences of its symbol, every count is at least
  1, and the counts add up to the length of the input.
\<close>

theorem calculate_frequencies_correct:
  "distinct (map fst (calculate_frequencies text))
   \<and> map_of (calculate_frequencies text) =
       (\<lambda>k. if k \<in> set text then Some (int (count_list text k)) else None)
   \<and> list_all (\<lambda>(k, v). 1 \<le> v) (calculate_frequencies text)
   \<and> sum_list (map snd (calculate_frequencies text)) = int (length text)"
proof -
  have c: "list_all (\<lambda>(k, v). 1 \<le> v) (calculate_frequencies text)"
    unfolding list_all_iff
  proof (rule ballI, clarify)
    fix k v assume kv: "(k, v) \<in> set (calculate_frequencies text)"
    then have "map_of (calculate_frequencies text) k = Some v"
      using calculate_frequencies_distinct [of "text"] by simp
    then have "k \<in> set text" "v = int (count_list text k)"
      by (auto simp: calculate_frequencies_map_of split: if_splits)
    then show "1 \<le> v" using count_list_pos [of k "text"] by simp
  qed
  show ?thesis
    using c calculate_frequencies_distinct calculate_frequencies_sum
    by (auto simp: calculate_frequencies_map_of fun_eq_iff)
qed

theorem calculate_frequencies_correct_witness:
  "calculate_frequencies ''abracadabra'' =
     [(CHR ''a'', 5), (CHR ''b'', 2), (CHR ''r'', 2), (CHR ''c'', 1), (CHR ''d'', 1)]
   \<and> list_all (\<lambda>(k, v). 1 \<le> v) (calculate_frequencies ''abracadabra'')
   \<and> sum_list (map snd (calculate_frequencies ''abracadabra'')) = int (length ''abracadabra'')"
  using calculate_frequencies_correct [of "''abracadabra''"]
  by (simp add: calculate_frequencies_def)

section \<open>The heap operations keep the items\<close>

lemma mset_update_pair:
  assumes "i < length h" "j < length h" "i \<noteq> j"
  shows "mset (h[i := h ! j, j := x]) = mset (h[i := x])"
proof -
  let ?g = "h[i := x]"
  have "mset (?g[j := ?g ! i, i := ?g ! j]) = mset ?g"
    using assms by (intro mset_swap) simp_all
  moreover have "?g[j := ?g ! i, i := ?g ! j] = h[i := h ! j, j := x]"
    using assms by (simp add: list_update_swap [of i j])
  ultimately show ?thesis by simp
qed

lemma siftdown_loop_mset:
  "pos < length heap \<Longrightarrow>
   mset (siftdown_loop heap startpos pos newitem) = mset (heap[pos := newitem])"
proof (induction heap startpos pos newitem rule: siftdown_loop.induct)
  case (1 heap startpos pos newitem)
  let ?pp = "(pos - 1) div 2"
  show ?case
  proof (cases "startpos < pos \<and> node_lt newitem (heap ! ?pp)")
    case True
    then have pp: "?pp < pos" by auto
    have "mset (siftdown_loop (heap[pos := heap ! ?pp]) startpos ?pp newitem)
          = mset (heap[pos := heap ! ?pp, ?pp := newitem])"
      using 1 True pp by simp
    also have "\<dots> = mset (heap[pos := newitem])"
      using 1(2) pp by (intro mset_update_pair) simp_all
    finally show ?thesis
      using True by (subst siftdown_loop.simps) (simp add: Let_def)
  next
    case False
    then show ?thesis
      by (subst siftdown_loop.simps) (auto simp: Let_def)
  qed
qed

lemma siftdown_mset: "pos < length heap \<Longrightarrow> mset (siftdown heap startpos pos) = mset heap"
  by (simp add: siftdown_def siftdown_loop_mset)

text \<open>
  The child the loop of \<open>_siftup\<close> moves up from position \<open>pos\<close>: the right one when it
  exists and the left one is not smaller, the left one otherwise.
\<close>

definition smaller_child :: "'a node list \<Rightarrow> nat \<Rightarrow> nat \<Rightarrow> nat" where
  "smaller_child heap endpos pos =
     (if 2 * pos + 2 < endpos \<and> \<not> node_lt (heap ! (2 * pos + 1)) (heap ! (2 * pos + 2))
      then 2 * pos + 2 else 2 * pos + 1)"

lemma siftup_loop_unfold:
  "siftup_loop heap endpos pos =
     (if 2 * pos + 1 < endpos
      then siftup_loop (heap[pos := heap ! smaller_child heap endpos pos]) endpos
             (smaller_child heap endpos pos)
      else (heap, pos))"
  by (subst siftup_loop.simps) (simp add: Let_def smaller_child_def)

lemma siftup_loop_mset:
  "pos < length heap \<Longrightarrow> siftup_loop heap (length heap) pos = (heap', pos') \<Longrightarrow>
   pos' < length heap \<and> mset (heap'[pos' := newitem]) = mset (heap[pos := newitem])"
proof (induction "length heap - pos" arbitrary: heap pos rule: less_induct)
  case less
  let ?n = "length heap"
  let ?c = "smaller_child heap ?n pos"
  show ?case
  proof (cases "2 * pos + 1 < ?n")
    case True
    then have c: "?c < ?n" "pos \<noteq> ?c" "pos < ?c"
      by (auto simp: smaller_child_def)
    have eq: "siftup_loop (heap[pos := heap ! ?c]) (length (heap[pos := heap ! ?c])) ?c = (heap', pos')"
      using less(3) True by (subst (asm) siftup_loop_unfold) simp
    have "pos' < length (heap[pos := heap ! ?c]) \<and>
          mset (heap'[pos' := newitem]) = mset (heap[pos := heap ! ?c, ?c := newitem])"
      using c less(2) by (intro less(1) eq) auto
    moreover have "mset (heap[pos := heap ! ?c, ?c := newitem]) = mset (heap[pos := newitem])"
      using less(2) c by (intro mset_update_pair) simp_all
    ultimately show ?thesis by simp
  next
    case False
    then show ?thesis using less(2,3) by (subst (asm) siftup_loop_unfold) auto
  qed
qed

lemma siftup_mset: "pos < length heap \<Longrightarrow> mset (siftup heap pos) = mset heap"
proof -
  assume p: "pos < length heap"
  obtain h q where hq: "siftup_loop heap (length heap) pos = (h, q)"
    by (cases "siftup_loop heap (length heap) pos")
  have len: "length h = length heap"
    using siftup_loop_length [of heap "length heap" pos] hq by simp
  have "q < length heap \<and> mset (h[q := heap ! pos]) = mset (heap[pos := heap ! pos])"
    using p hq by (intro siftup_loop_mset) simp_all
  then show ?thesis
    using len by (simp add: siftup_def Let_def hq siftdown_mset)
qed

section \<open>The heap operations keep the heap order\<close>

text \<open>
  The heap order of \<open>heapq\<close> on the positions from \<open>s\<close> on: no item is smaller than its
  parent at position \<open>(j - 1) div 2\<close>, for every parent position that is at least \<open>s\<close>.
  \<open>heap_from 0\<close> is the invariant of a heap.
\<close>

definition heap_from :: "nat \<Rightarrow> 'a node list \<Rightarrow> bool" where
  "heap_from s h =
     (\<forall>j<length h. 0 < j \<and> s \<le> (j - 1) div 2 \<longrightarrow> freq (h ! ((j - 1) div 2)) \<le> freq (h ! j))"

text \<open>Position \<open>p\<close> is \<open>s\<close> or lies in the subtree under \<open>s\<close>.\<close>

fun below :: "nat \<Rightarrow> nat \<Rightarrow> bool" where
  "below s p = (if p \<le> s then p = s else below s ((p - 1) div 2))"

declare below.simps [simp del]

lemma parent_less: "0 < q \<Longrightarrow> (q - 1) div 2 < (q::nat)"
  by (cases q) auto

lemma below_refl: "below s s"
  by (subst below.simps) simp

lemma below_ge: "below s p \<Longrightarrow> s \<le> p"
  by (induction s p rule: below.induct) (subst (asm) (2) below.simps, auto split: if_splits)

lemma below_parent: "below s p \<Longrightarrow> s < p \<Longrightarrow> below s ((p - 1) div 2)"
  by (subst (asm) below.simps) simp

lemma below_child: "below s p \<Longrightarrow> (c - 1) div 2 = p \<Longrightarrow> p < c \<Longrightarrow> below s c"
  using below_ge [of s p] by (subst below.simps) auto

lemma below_zero: "below 0 p"
  by (induction p rule: less_induct) (subst below.simps, auto)

lemma heap_from_mono: "heap_from s h \<Longrightarrow> s \<le> s' \<Longrightarrow> heap_from s' h"
  by (auto simp: heap_from_def)

lemma siftdown_loop_heap:
  assumes "pos < length h" and "below s pos"
    and "\<forall>j<length h. 0 < j \<and> s \<le> (j - 1) div 2 \<and> j \<noteq> pos \<and> (j - 1) div 2 \<noteq> pos
           \<longrightarrow> freq (h ! ((j - 1) div 2)) \<le> freq (h ! j)"
    and "\<forall>j<length h. 0 < j \<and> (j - 1) div 2 = pos \<longrightarrow> freq x \<le> freq (h ! j)"
    and "\<forall>j<length h. 0 < j \<and> (j - 1) div 2 = pos \<and> s < pos
           \<longrightarrow> freq (h ! ((pos - 1) div 2)) \<le> freq (h ! j)"
  shows "heap_from s (siftdown_loop h s pos x)"
  using assms
proof (induction pos arbitrary: h rule: less_induct)
  case (less pos)
  let ?pp = "(pos - 1) div 2"
  note a = less.prems(3) and b = less.prems(4) and c = less.prems(5)
  show ?case
  proof (cases "s < pos \<and> node_lt x (h ! ?pp)")
    case False
    have "heap_from s (h[pos := x])"
      unfolding heap_from_def
    proof (intro allI impI)
      fix j assume j: "j < length (h[pos := x])" "0 < j \<and> s \<le> (j - 1) div 2"
      show "freq (h[pos := x] ! ((j - 1) div 2)) \<le> freq (h[pos := x] ! j)"
      proof (cases "j = pos")
        case True
        with j have "s < pos" by auto
        with False have "freq (h ! ?pp) \<le> freq x" by (simp add: node_lt_def)
        moreover have "?pp \<noteq> pos" using \<open>s < pos\<close> by auto
        ultimately show ?thesis using True less.prems(1) by simp
      next
        case jp: False
        show ?thesis
        proof (cases "(j - 1) div 2 = pos")
          case True
          then show ?thesis using b j jp less.prems(1) by simp
        next
          case False
          then show ?thesis using a j jp by simp
        qed
      qed
    qed
    then show ?thesis
      using False by (subst siftdown_loop.simps) (auto simp: Let_def)
  next
    case True
    then have sp: "s < pos" and lt: "freq x < freq (h ! ?pp)" by (auto simp: node_lt_def)
    have pp: "?pp < pos" using sp by auto
    have bpp: "below s ?pp" using less.prems(2) sp by (rule below_parent)
    have spp: "s \<le> ?pp" using bpp by (rule below_ge)
    let ?h = "h[pos := h ! ?pp]"
    have "heap_from s (siftdown_loop ?h s ?pp x)"
    proof (rule less.IH [OF pp _ bpp])
      show "?pp < length ?h" using pp less.prems(1) by simp
    next
      show "\<forall>j<length ?h. 0 < j \<and> s \<le> (j - 1) div 2 \<and> j \<noteq> ?pp \<and> (j - 1) div 2 \<noteq> ?pp
             \<longrightarrow> freq (?h ! ((j - 1) div 2)) \<le> freq (?h ! j)"
      proof (intro allI impI)
        fix j assume j: "j < length ?h"
          "0 < j \<and> s \<le> (j - 1) div 2 \<and> j \<noteq> ?pp \<and> (j - 1) div 2 \<noteq> ?pp"
        then have jp: "j \<noteq> pos" by auto
        show "freq (?h ! ((j - 1) div 2)) \<le> freq (?h ! j)"
        proof (cases "(j - 1) div 2 = pos")
          case True
          then show ?thesis using c j jp sp less.prems(1) by simp
        next
          case False
          then show ?thesis using a j jp by simp
        qed
      qed
    next
      show "\<forall>j<length ?h. 0 < j \<and> (j - 1) div 2 = ?pp \<longrightarrow> freq x \<le> freq (?h ! j)"
      proof (intro allI impI)
        fix j assume j: "j < length ?h" "0 < j \<and> (j - 1) div 2 = ?pp"
        show "freq x \<le> freq (?h ! j)"
        proof (cases "j = pos")
          case True
          then show ?thesis using lt less.prems(1) by simp
        next
          case False
          then have "freq (h ! ?pp) \<le> freq (h ! j)"
            using a j spp pp by auto
          then show ?thesis using lt False by simp
        qed
      qed
    next
      show "\<forall>j<length ?h. 0 < j \<and> (j - 1) div 2 = ?pp \<and> s < ?pp
             \<longrightarrow> freq (?h ! ((?pp - 1) div 2)) \<le> freq (?h ! j)"
      proof (intro allI impI)
        fix j assume j: "j < length ?h" "0 < j \<and> (j - 1) div 2 = ?pp \<and> s < ?pp"
        then have sg: "s \<le> (?pp - 1) div 2"
          using below_ge [OF below_parent [OF bpp]] by simp
        have g: "(?pp - 1) div 2 < ?pp" using j by (intro parent_less) simp
        have e1: "freq (h ! ((?pp - 1) div 2)) \<le> freq (h ! ?pp)"
          using a [rule_format, of ?pp] sg g pp j less.prems(1) by auto
        have "freq (h ! ?pp) \<le> freq (?h ! j)"
        proof (cases "j = pos")
          case True
          then show ?thesis using less.prems(1) by simp
        next
          case False
          then show ?thesis using a [rule_format, of j] j spp pp by auto
        qed
        moreover have "?h ! ((?pp - 1) div 2) = h ! ((?pp - 1) div 2)"
          using g pp by simp
        ultimately show "freq (?h ! ((?pp - 1) div 2)) \<le> freq (?h ! j)"
          using e1 by simp
      qed
    qed
    then show ?thesis
      using True by (subst siftdown_loop.simps) (simp add: Let_def)
  qed
qed

lemma smaller_child_props:
  assumes "2 * pos + 1 < length h"
  shows "smaller_child h (length h) pos < length h"
    and "pos < smaller_child h (length h) pos"
    and "(smaller_child h (length h) pos - 1) div 2 = pos"
    and "\<forall>j<length h. 0 < j \<and> (j - 1) div 2 = pos
           \<longrightarrow> freq (h ! smaller_child h (length h) pos) \<le> freq (h ! j)"
proof -
  show "smaller_child h (length h) pos < length h" "pos < smaller_child h (length h) pos"
    "(smaller_child h (length h) pos - 1) div 2 = pos"
    using assms by (auto simp: smaller_child_def)
  show "\<forall>j<length h. 0 < j \<and> (j - 1) div 2 = pos
           \<longrightarrow> freq (h ! smaller_child h (length h) pos) \<le> freq (h ! j)"
  proof (intro allI impI)
    fix j assume j: "j < length h" "0 < j \<and> (j - 1) div 2 = pos"
    then have "j = 2 * pos + 1 \<or> j = 2 * pos + 2" by auto
    then show "freq (h ! smaller_child h (length h) pos) \<le> freq (h ! j)"
      using j by (auto simp: smaller_child_def node_lt_def)
  qed
qed

lemma siftup_loop_heap:
  assumes "siftup_loop h (length h) pos = (h', p')" and "pos < length h" and "below s pos"
    and "heap_from (Suc s) h" and "s < pos \<longrightarrow> heap_from s h"
  shows "p' < length h \<and> below s p' \<and> length h \<le> 2 * p' + 1 \<and> length h' = length h
         \<and> heap_from (Suc s) h' \<and> (s < p' \<longrightarrow> heap_from s h')"
  using assms
proof (induction "length h - pos" arbitrary: h pos rule: less_induct)
  case less
  let ?n = "length h"
  let ?c = "smaller_child h ?n pos"
  let ?h = "h[pos := h ! ?c]"
  show ?case
  proof (cases "2 * pos + 1 < ?n")
    case False
    then show ?thesis
      using less.prems by (subst (asm) siftup_loop_unfold) auto
  next
    case True
    note c = smaller_child_props [OF True]
    have eq: "siftup_loop ?h (length ?h) ?c = (h', p')"
      using less.prems(1) True by (subst (asm) siftup_loop_unfold) simp
    have sp: "s \<le> pos" using less.prems(3) by (rule below_ge)
    have hs: "heap_from s ?h"
      unfolding heap_from_def
    proof (intro allI impI)
      fix j assume j: "j < length ?h" "0 < j \<and> s \<le> (j - 1) div 2"
      show "freq (?h ! ((j - 1) div 2)) \<le> freq (?h ! j)"
      proof (cases "(j - 1) div 2 = pos")
        case True
        then have "j \<noteq> pos" using j by auto
        then show ?thesis using c(4) j True less.prems(2) by simp
      next
        case np: False
        show ?thesis
        proof (cases "j = pos")
          case True
          then have "s < pos" using j parent_less [of pos] by auto
          then have hf: "heap_from s h" using less.prems(5) by simp
          have "freq (h ! ((pos - 1) div 2)) \<le> freq (h ! pos)"
            using hf j True unfolding heap_from_def by auto
          moreover have "freq (h ! pos) \<le> freq (h ! ?c)"
            using hf c(1,2,3) sp unfolding heap_from_def by auto
          ultimately show ?thesis using True np less.prems(2) by simp
        next
          case False
          have "s < pos \<or> Suc s \<le> (j - 1) div 2" using sp np j by auto
          then have "freq (h ! ((j - 1) div 2)) \<le> freq (h ! j)"
            using less.prems(4,5) j unfolding heap_from_def by auto
          then show ?thesis using False np by simp
        qed
      qed
    qed
    have "p' < length ?h \<and> below s p' \<and> length ?h \<le> 2 * p' + 1 \<and> length h' = length ?h
         \<and> heap_from (Suc s) h' \<and> (s < p' \<longrightarrow> heap_from s h')"
    proof (rule less.hyps [OF _ eq])
      show "length ?h - ?c < length h - pos" using c(1,2) by simp
      show "?c < length ?h" using c(1) by simp
      show "below s ?c" using less.prems(3) c(3,2) by (rule below_child)
      show "heap_from (Suc s) ?h" using hs by (rule heap_from_mono) simp
      show "s < ?c \<longrightarrow> heap_from s ?h" using hs by simp
    qed
    then show ?thesis by simp
  qed
qed

lemma siftup_heap:
  assumes "pos < length h" and "heap_from (Suc pos) h"
  shows "heap_from pos (siftup h pos)"
proof -
  obtain h' p' where hp: "siftup_loop h (length h) pos = (h', p')"
    by (cases "siftup_loop h (length h) pos")
  have r: "p' < length h \<and> below pos p' \<and> length h \<le> 2 * p' + 1 \<and> length h' = length h
         \<and> heap_from (Suc pos) h' \<and> (pos < p' \<longrightarrow> heap_from pos h')"
    using hp assms(1) below_refl assms(2) by (rule siftup_loop_heap) simp
  let ?x = "h ! pos"
  let ?h = "h'[p' := ?x]"
  have pp: "pos \<le> p'" using r below_ge by blast
  have "heap_from pos (siftdown_loop ?h pos p' ?x)"
  proof (rule siftdown_loop_heap)
    show "p' < length ?h" using r by simp
    show "below pos p'" using r by simp
    show "\<forall>j<length ?h. 0 < j \<and> pos \<le> (j - 1) div 2 \<and> j \<noteq> p' \<and> (j - 1) div 2 \<noteq> p'
           \<longrightarrow> freq (?h ! ((j - 1) div 2)) \<le> freq (?h ! j)"
    proof (intro allI impI)
      fix j assume j: "j < length ?h"
        "0 < j \<and> pos \<le> (j - 1) div 2 \<and> j \<noteq> p' \<and> (j - 1) div 2 \<noteq> p'"
      have "pos < p' \<or> Suc pos \<le> (j - 1) div 2" using pp j by auto
      then have "freq (h' ! ((j - 1) div 2)) \<le> freq (h' ! j)"
        using r j unfolding heap_from_def by auto
      then show "freq (?h ! ((j - 1) div 2)) \<le> freq (?h ! j)" using j by simp
    qed
    show "\<forall>j<length ?h. 0 < j \<and> (j - 1) div 2 = p' \<longrightarrow> freq ?x \<le> freq (?h ! j)"
      using r by auto
    show "\<forall>j<length ?h. 0 < j \<and> (j - 1) div 2 = p' \<and> pos < p'
           \<longrightarrow> freq (?h ! ((p' - 1) div 2)) \<le> freq (?h ! j)"
      using r by auto
  qed
  moreover have "?h ! p' = ?x" using r by simp
  ultimately show ?thesis
    by (simp add: siftup_def Let_def hp siftdown_def)
qed

lemma heapify_heap: "heap_from 0 (heapify x)"
proof -
  have step: "k \<le> length h div 2 \<Longrightarrow> heap_from k h \<Longrightarrow> heap_from 0 (foldl siftup h (rev [0..<k]))"
    for k and h :: "'a node list"
  proof (induction k arbitrary: h)
    case 0
    then show ?case by simp
  next
    case (Suc k)
    have "heap_from k (siftup h k)"
      using Suc.prems by (intro siftup_heap) auto
    then have "heap_from 0 (foldl siftup (siftup h k) (rev [0..<k]))"
      using Suc.prems by (intro Suc.IH) simp_all
    then show ?case by simp
  qed
  have "heap_from (length x div 2) x"
    unfolding heap_from_def by auto
  then show ?thesis
    unfolding heapify_def Let_def by (intro step) simp
qed

lemma heappush_heap:
  assumes "heap_from 0 h"
  shows "heap_from 0 (heappush h x)"
proof -
  let ?h = "h @ [x]"
  have "heap_from 0 (siftdown_loop ?h 0 (length h) x)"
  proof (rule siftdown_loop_heap)
    show "length h < length ?h" by simp
    show "below 0 (length h)" by (rule below_zero)
    show "\<forall>j<length ?h. 0 < j \<and> 0 \<le> (j - 1) div 2 \<and> j \<noteq> length h \<and> (j - 1) div 2 \<noteq> length h
           \<longrightarrow> freq (?h ! ((j - 1) div 2)) \<le> freq (?h ! j)"
    proof (intro allI impI)
      fix j assume j: "j < length ?h"
        "0 < j \<and> 0 \<le> (j - 1) div 2 \<and> j \<noteq> length h \<and> (j - 1) div 2 \<noteq> length h"
      then have jl: "j < length h" "(j - 1) div 2 < length h" by auto
      then have "freq (h ! ((j - 1) div 2)) \<le> freq (h ! j)"
        using assms j unfolding heap_from_def by auto
      then show "freq (?h ! ((j - 1) div 2)) \<le> freq (?h ! j)"
        using jl by (simp add: nth_append)
    qed
    show "\<forall>j<length ?h. 0 < j \<and> (j - 1) div 2 = length h \<longrightarrow> freq x \<le> freq (?h ! j)"
      by auto
    show "\<forall>j<length ?h. 0 < j \<and> (j - 1) div 2 = length h \<and> 0 < length h
           \<longrightarrow> freq (?h ! ((length h - 1) div 2)) \<le> freq (?h ! j)"
      by auto
  qed
  then show ?thesis
    by (simp add: heappush_def Let_def siftdown_def)
qed

lemma heap_min: "heap_from 0 h \<Longrightarrow> j < length h \<Longrightarrow> freq (h ! 0) \<le> freq (h ! j)"
proof (induction j rule: less_induct)
  case (less j)
  show ?case
  proof (cases "j = 0")
    case True
    then show ?thesis by simp
  next
    case False
    then have p: "(j - 1) div 2 < j" by (intro parent_less) simp
    then have "freq (h ! 0) \<le> freq (h ! ((j - 1) div 2))"
      using less by auto
    moreover have "freq (h ! ((j - 1) div 2)) \<le> freq (h ! j)"
      using less.prems False unfolding heap_from_def by auto
    ultimately show ?thesis by simp
  qed
qed

lemma heappop_heap:
  assumes "heap_from 0 h" and "heappop h = Inr (x, h')"
  shows "heap_from 0 h' \<and> x = h ! 0"
proof (cases h rule: rev_cases)
  case Nil
  then show ?thesis using assms(2) by (simp add: heappop_def)
next
  case (snoc ys y)
  show ?thesis
  proof (cases "ys = []")
    case True
    then show ?thesis using assms(2) snoc by (auto simp: heappop_def heap_from_def)
  next
    case False
    have "heap_from 1 (ys[0 := y])"
      unfolding heap_from_def
    proof (intro allI impI)
      fix j assume j: "j < length (ys[0 := y])" "0 < j \<and> 1 \<le> (j - 1) div 2"
      then have "freq (h ! ((j - 1) div 2)) \<le> freq (h ! j)"
        using assms(1) snoc unfolding heap_from_def by auto
      moreover have "(j - 1) div 2 < length ys" using j by auto
      ultimately show "freq (ys[0 := y] ! ((j - 1) div 2)) \<le> freq (ys[0 := y] ! j)"
        using j snoc by (simp add: nth_append)
    qed
    then have "heap_from 0 (siftup (ys[0 := y]) 0)"
      using False by (intro siftup_heap) simp_all
    then show ?thesis
      using assms(2) snoc False by (auto simp: heappop_def Let_def nth_append)
  qed
qed

lemma heappush_mset: "mset (heappush h x) = add_mset x (mset h)"
  by (simp add: heappush_def Let_def siftdown_mset)

lemma heappop_mset: "heappop h = Inr (x, h') \<Longrightarrow> mset h = add_mset x (mset h')"
proof (cases h rule: rev_cases)
  case Nil
  assume "heappop h = Inr (x, h')"
  then show ?thesis using Nil by (simp add: heappop_def)
next
  case (snoc ys y)
  assume a: "heappop h = Inr (x, h')"
  show ?thesis
  proof (cases ys)
    case Nil
    then show ?thesis using a snoc by (auto simp: heappop_def)
  next
    case (Cons z zs)
    then show ?thesis using a snoc by (auto simp: heappop_def Let_def siftup_mset)
  qed
qed

lemma heapify_mset: "mset (heapify x) = mset x"
proof -
  have r: "\<forall>i\<in>set ks. i < length h \<Longrightarrow> mset (foldl siftup h ks) = mset h"
    for ks and h :: "'a node list"
    by (induction ks arbitrary: h) (simp_all add: siftup_mset)
  show ?thesis
    unfolding heapify_def Let_def by (rule r) auto
qed

lemma heapify_length [simp]: "length (heapify x) = length x"
  using heapify_mset [of x] by (metis size_mset)

section \<open>The tree built by build_huffman_tree\<close>

text \<open>
  A node as the specification describes it: a leaf holds a symbol and has no children; an
  internal node holds no symbol, has both children, and its frequency is the sum of theirs.
\<close>

fun well_formed :: "'a node \<Rightarrow> bool" where
  "well_formed (Node ch f l r) =
     (case ch of
        Some c \<Rightarrow> l = None \<and> r = None
      | None \<Rightarrow>
          (case l of
             None \<Rightarrow> False
           | Some ln \<Rightarrow>
               (case r of
                  None \<Rightarrow> False
                | Some rn \<Rightarrow> f = freq ln + freq rn \<and> well_formed ln \<and> well_formed rn)))"

text \<open>In every node with two children the left one has the smaller or equal frequency.\<close>

fun children_ordered :: "'a node \<Rightarrow> bool" where
  "children_ordered (Node ch f l r) =
     (case l of
        None \<Rightarrow> (case r of None \<Rightarrow> True | Some rn \<Rightarrow> children_ordered rn)
      | Some ln \<Rightarrow>
          (case r of
             None \<Rightarrow> children_ordered ln
           | Some rn \<Rightarrow> freq ln \<le> freq rn \<and> children_ordered ln \<and> children_ordered rn))"

text \<open>
  The symbols \<open>generate_codes\<close> reaches under a node, in the order it reaches them: the
  symbol of a node whose \<open>char\<close> is set, the symbols of both children otherwise.
\<close>

fun symbols :: "'a node \<Rightarrow> 'a list" where
  "symbols (Node ch f l r) =
     (case ch of
        Some c \<Rightarrow> [c]
      | None \<Rightarrow> (case l of None \<Rightarrow> [] | Some ln \<Rightarrow> symbols ln)
                @ (case r of None \<Rightarrow> [] | Some rn \<Rightarrow> symbols rn))"

lemma heappop_Inr: "h \<noteq> [] \<Longrightarrow> \<exists>x h'. heappop h = Inr (x, h')"
  by (simp add: heappop_def Let_def)

lemma build_loop_unfold:
  "1 < length h \<Longrightarrow> heappop h = Inr (l, h1) \<Longrightarrow> heappop h1 = Inr (r, h2) \<Longrightarrow>
   build_loop h = build_loop (heappush h2 (Node None (freq l + freq r) (Some l) (Some r)))"
  by (subst build_loop.simps) (simp add: Let_def)

lemma build_loop_rule:
  assumes "heap \<noteq> []" and "I heap"
    and step: "\<And>h l h1 r h2. I h \<Longrightarrow> 1 < length h \<Longrightarrow> heappop h = Inr (l, h1) \<Longrightarrow>
                 heappop h1 = Inr (r, h2) \<Longrightarrow>
                 I (heappush h2 (Node None (freq l + freq r) (Some l) (Some r)))"
  shows "\<exists>t. build_loop heap = Inr [t] \<and> I [t]"
  using assms(1,2)
proof (induction "length heap" arbitrary: heap rule: less_induct)
  case less
  show ?case
  proof (cases "1 < length heap")
    case False
    then obtain t where "heap = [t]"
      using less.prems(1) by (cases heap) auto
    then show ?thesis
      using less.prems(2) by (subst build_loop.simps) simp
  next
    case True
    obtain l h1 where p1: "heappop heap = Inr (l, h1)"
      using heappop_Inr [OF less.prems(1)] by blast
    have l1: "Suc (length h1) = length heap" using p1 by (rule heappop_length)
    then have "h1 \<noteq> []" using True by auto
    then obtain r h2 where p2: "heappop h1 = Inr (r, h2)"
      using heappop_Inr by blast
    have l2: "Suc (length h2) = length h1" using p2 by (rule heappop_length)
    let ?m = "Node None (freq l + freq r) (Some l) (Some r)"
    have "\<exists>t. build_loop (heappush h2 ?m) = Inr [t] \<and> I [t]"
    proof (rule less.hyps)
      show "length (heappush h2 ?m) < length heap" using l1 l2 by simp
      show "heappush h2 ?m \<noteq> []" by (metis heappush_length length_0_conv nat.simps(3))
      show "I (heappush h2 ?m)" using less.prems(2) True p1 p2 by (rule step)
    qed
    then show ?thesis
      using build_loop_unfold [OF True p1 p2] by simp
  qed
qed

text \<open>
  The invariant of the loop of \<open>build_huffman_tree\<close> on the frequency table \<open>fs\<close>: the list
  is a heap, its items are well-formed trees with ordered children, their frequencies add up
  to the counts of \<open>fs\<close>, and their symbols are the keys of \<open>fs\<close>.
\<close>

definition tree_inv :: "'a frequencies \<Rightarrow> 'a node list \<Rightarrow> bool" where
  "tree_inv fs h =
     (heap_from 0 h
      \<and> list_all (\<lambda>x. well_formed x \<and> children_ordered x) h
      \<and> sum_list (map freq h) = sum_list (map snd fs)
      \<and> mset (concat (map symbols h)) = mset (map fst fs))"

lemma mset_concat_symbols:
  "mset (concat (map symbols h)) = (\<Sum>x\<in>#mset h. mset (symbols x))"
  by (induction h) simp_all

lemma sum_list_freq: "sum_list (map freq h) = (\<Sum>x\<in>#mset h. freq x)"
  by (induction h) simp_all

lemma tree_inv_step:
  assumes "tree_inv fs h" and "1 < length h" and "heappop h = Inr (l, h1)"
    and "heappop h1 = Inr (r, h2)"
  shows "tree_inv fs (heappush h2 (Node None (freq l + freq r) (Some l) (Some r)))"
proof -
  let ?m = "Node None (freq l + freq r) (Some l) (Some r)"
  have hh: "heap_from 0 h" using assms(1) by (simp add: tree_inv_def)
  have h1: "heap_from 0 h1" "l = h ! 0" using heappop_heap [OF hh assms(3)] by simp_all
  have h2: "heap_from 0 h2" using heappop_heap [OF h1(1) assms(4)] by simp
  have m1: "mset h = add_mset l (mset h1)" using assms(3) by (rule heappop_mset)
  have m2: "mset h1 = add_mset r (mset h2)" using assms(4) by (rule heappop_mset)
  have m3: "mset (heappush h2 ?m) = add_mset ?m (mset h2)" by (rule heappush_mset)
  have mh: "mset h = add_mset l (add_mset r (mset h2))" using m1 m2 by simp
  have "r \<in># mset h" using mh by simp
  then have "r \<in> set h" by simp
  then obtain j where "j < length h" "r = h ! j" by (auto simp: in_set_conv_nth)
  then have lr: "freq l \<le> freq r" using heap_min [OF hh] h1(2) by simp
  have all: "\<forall>x\<in>#mset h. well_formed x \<and> children_ordered x"
    using assms(1) by (simp add: tree_inv_def list_all_iff)
  then have "\<forall>x\<in>#mset (heappush h2 ?m). well_formed x \<and> children_ordered x"
    unfolding m3 mh using lr by simp
  then have a: "list_all (\<lambda>x. well_formed x \<and> children_ordered x) (heappush h2 ?m)"
    by (simp add: list_all_iff)
  have b: "sum_list (map freq (heappush h2 ?m)) = sum_list (map snd fs)"
    using assms(1) unfolding tree_inv_def sum_list_freq m3 mh by simp
  have c0: "mset (symbols l) + (mset (symbols r) + (\<Sum>x\<in>#mset h2. mset (symbols x)))
            = mset (map fst fs)"
    using assms(1) unfolding tree_inv_def mset_concat_symbols mh by simp
  have "(\<Sum>x\<in>#add_mset ?m (mset h2). mset (symbols x))
        = mset (symbols l) + (mset (symbols r) + (\<Sum>x\<in>#mset h2. mset (symbols x)))"
    by (simp add: add.assoc)
  then have c: "mset (concat (map symbols (heappush h2 ?m))) = mset (map fst fs)"
    unfolding mset_concat_symbols m3 using c0 by (rule trans)
  show ?thesis
    unfolding tree_inv_def using heappush_heap [OF h2] a b c by simp
qed

lemma tree_inv_init:
  "tree_inv fs (heapify (map (\<lambda>(c, f). Node (Some c) f None None) fs))"
proof -
  let ?h = "map (\<lambda>(c, f). Node (Some c) f None None) fs"
  have m: "mset (heapify ?h) = mset ?h" by (rule heapify_mset)
  have a: "list_all (\<lambda>x. well_formed x \<and> children_ordered x) ?h"
    by (induction fs) auto
  have b: "sum_list (map freq ?h) = sum_list (map snd fs)"
    by (induction fs) auto
  have c: "mset (concat (map symbols ?h)) = mset (map fst fs)"
    by (induction fs) auto
  have "set (heapify ?h) = set ?h" using m by (rule mset_eq_setD)
  then have "list_all (\<lambda>x. well_formed x \<and> children_ordered x) (heapify ?h)"
    using a by (simp only: list_all_iff)
  moreover have "sum_list (map freq (heapify ?h)) = sum_list (map snd fs)"
    using b unfolding sum_list_freq m .
  moreover have "mset (concat (map symbols (heapify ?h))) = mset (map fst fs)"
    using c unfolding mset_concat_symbols m .
  ultimately show ?thesis
    unfolding tree_inv_def using heapify_heap by blast
qed

lemma build_huffman_tree_empty: "build_huffman_tree [] = Inl IndexError"
proof -
  have "build_loop ([]::'a node list) = Inr []"
    by (subst build_loop.simps) simp
  then show ?thesis
    by (simp add: build_huffman_tree_def heapify_def)
qed

lemma build_huffman_tree_nonempty:
  assumes "fs \<noteq> []"
  shows "\<exists>t. build_huffman_tree fs = Inr t \<and> tree_inv fs [t]"
proof -
  let ?h = "heapify (map (\<lambda>(c, f). Node (Some c) f None None) fs)"
  have "length ?h = length fs" by simp
  then have "?h \<noteq> []" using assms by (metis length_0_conv)
  then have "\<exists>t. build_loop ?h = Inr [t] \<and> tree_inv fs [t]"
  proof (rule build_loop_rule [where I = "tree_inv fs"])
    show "tree_inv fs ?h" by (rule tree_inv_init)
  next
    fix h l h1 r h2
    assume "tree_inv fs h" "1 < length h" "heappop h = Inr (l, h1)" "heappop h1 = Inr (r, h2)"
    then show "tree_inv fs (heappush h2 (Node None (freq l + freq r) (Some l) (Some r)))"
      by (rule tree_inv_step)
  qed
  then show ?thesis
    by (auto simp: build_huffman_tree_def Let_def)
qed

lemma build_huffman_tree_Inr:
  assumes "build_huffman_tree fs = Inr t"
  shows "fs \<noteq> [] \<and> tree_inv fs [t]"
proof -
  have ne: "fs \<noteq> []" using assms by (cases fs) (simp_all add: build_huffman_tree_empty)
  then show ?thesis using build_huffman_tree_nonempty [OF ne] assms by auto
qed

lemma first_pop_least:
  assumes "heap_from 0 heap" and "heappop heap = Inr (l, heap1)" and "heappop heap1 = Inr (r, heap2)"
  shows "freq l \<le> freq r"
proof -
  have l: "l = heap ! 0" using heappop_heap [OF assms(1,2)] by simp
  have "mset heap = add_mset l (mset heap1)" using assms(2) by (rule heappop_mset)
  moreover have "mset heap1 = add_mset r (mset heap2)" using assms(3) by (rule heappop_mset)
  ultimately have "r \<in># mset heap" by simp
  then have "r \<in> set heap" by simp
  then obtain j where "j < length heap" "r = heap ! j" by (auto simp: in_set_conv_nth)
  then show ?thesis using heap_min [OF assms(1)] l by simp
qed

text \<open>
  C9: a tree returned by \<open>build_huffman_tree\<close> is well formed (every node is a leaf with
  one symbol and no children, or an internal node with no symbol, two children and the sum
  of their frequencies), and the frequency of its root is the sum of all counts of the
  table. Each turn of the loop merges the node popped first as the left child and the node
  popped second as the right child; on a heap the first has the smaller or equal frequency,
  and so has the left child of every internal node of the returned tree.
\<close>

theorem build_huffman_tree_shape:
  "(build_huffman_tree fs = Inr t \<longrightarrow>
      well_formed t \<and> children_ordered t \<and> freq t = sum_list (map snd fs))
   \<and> (1 < length heap \<and> heappop heap = Inr (l, heap1) \<and> heappop heap1 = Inr (r, heap2) \<longrightarrow>
        build_loop heap
          = build_loop (heappush heap2 (Node None (freq l + freq r) (Some l) (Some r)))
        \<and> (heap_from 0 heap \<longrightarrow> freq l \<le> freq r))"
proof (intro conjI impI)
  assume "build_huffman_tree fs = Inr t"
  then have "tree_inv fs [t]" using build_huffman_tree_Inr by blast
  then show "well_formed t" "children_ordered t" "freq t = sum_list (map snd fs)"
    by (simp_all add: tree_inv_def)
next
  assume a: "1 < length heap \<and> heappop heap = Inr (l, heap1) \<and> heappop heap1 = Inr (r, heap2)"
  then show "build_loop heap
          = build_loop (heappush heap2 (Node None (freq l + freq r) (Some l) (Some r)))"
    using build_loop_unfold by blast
  assume "heap_from 0 heap"
  then show "freq l \<le> freq r" using a first_pop_least by blast
qed

text \<open>The tree built for the text \<open>abracadabra\<close>.\<close>

definition abra_tree :: "char node" where
  "abra_tree =
     Node None 11 (Some (Node (Some CHR ''a'') 5 None None))
       (Some (Node None 6
          (Some (Node None 2 (Some (Node (Some CHR ''d'') 1 None None))
                             (Some (Node (Some CHR ''c'') 1 None None))))
          (Some (Node None 4 (Some (Node (Some CHR ''r'') 2 None None))
                             (Some (Node (Some CHR ''b'') 2 None None))))))"

lemma abra_frequencies:
  "calculate_frequencies ''abracadabra'' =
     [(CHR ''a'', 5), (CHR ''b'', 2), (CHR ''r'', 2), (CHR ''c'', 1), (CHR ''d'', 1)]"
  by (simp add: calculate_frequencies_def)

lemma abra_build: "build_huffman_tree (calculate_frequencies ''abracadabra'') = Inr abra_tree"
  unfolding abra_frequencies abra_tree_def by code_simp

lemma two_heap_pops:
  "heappop [Node (Some CHR ''b'') 1 None None, Node (Some CHR ''a'') 1 None None]
     = Inr (Node (Some CHR ''b'') 1 None None, [Node (Some CHR ''a'') 1 None None])
   \<and> heappop [Node (Some CHR ''a'') 1 None None] = Inr (Node (Some CHR ''a'') 1 None None, [])"
  by code_simp

theorem build_huffman_tree_shape_witness:
  "build_huffman_tree (calculate_frequencies ''abracadabra'') = Inr abra_tree
   \<and> well_formed abra_tree \<and> children_ordered abra_tree
   \<and> freq abra_tree = sum_list (map snd (calculate_frequencies ''abracadabra''))
   \<and> build_loop [Node (Some CHR ''b'') 1 None None, Node (Some CHR ''a'') 1 None None]
       = build_loop (heappush [] (Node None (1 + 1) (Some (Node (Some CHR ''b'') 1 None None))
                                                      (Some (Node (Some CHR ''a'') 1 None None))))"
  using build_huffman_tree_shape [of "calculate_frequencies ''abracadabra''" abra_tree
      "[Node (Some CHR ''b'') 1 None None, Node (Some CHR ''a'') 1 None None]"
      "Node (Some CHR ''b'') 1 None None" "[Node (Some CHR ''a'') 1 None None]"
      "Node (Some CHR ''a'') 1 None None" "[]"]
    abra_build two_heap_pops
  by simp

text \<open>
  C6: the code at the empty frequency table. \<open>build_huffman_tree\<close> has no guard for an
  empty heap: the loop is skipped and \<open>return heap[0]\<close> raises \<open>IndexError\<close>, an exception of
  the list access and not an error the program defines or reports; \<open>compress_file\<close> does not
  catch it. The reading of a missing input file, by contrast, is caught, reported and ends
  the program with exit status 1.
\<close>

theorem empty_input_IndexError:
  "build_huffman_tree [] = Inl IndexError \<and> compress_file P [] = Inl IndexError"
  by (simp add: build_huffman_tree_empty compress_file_def calculate_frequencies_def)

lemma foldl_incr_same:
  "foldl (\<lambda>fs c. incr c fs) [(c, k)] (replicate n c) = [(c, k + int n)]"
  by (induction n arbitrary: k) simp_all

lemma calculate_frequencies_replicate:
  "calculate_frequencies (replicate (Suc n) c) = [(c, 1 + int n)]"
  by (simp add: calculate_frequencies_def foldl_incr_same)

lemma build_huffman_tree_single:
  "build_huffman_tree [(c, f)] = Inr (Node (Some c) f None None)"
proof -
  have "build_loop [Node (Some c) f None None] = Inr [Node (Some c) f None None]"
    by (subst build_loop.simps) simp
  then show ?thesis by (simp add: build_huffman_tree_def heapify_def)
qed

text \<open>
  C2: for a text of one distinct symbol (\<open>n + 1\<close> copies of \<open>c\<close>) the tree is the single leaf
  of \<open>c\<close>, and \<open>generate_codes\<close> binds \<open>c\<close> to the empty string: the code the claim requires
  to be non-empty is empty.
\<close>

theorem single_symbol_empty_code:
  "build_huffman_tree (calculate_frequencies (replicate (Suc n) c))
     = Inr (Node (Some c) (1 + int n) None None)
   \<and> generate_codes (Node (Some c) (1 + int n) None None) [] [] = Inr [(c, [])]"
  unfolding calculate_frequencies_replicate build_huffman_tree_single by simp

theorem single_symbol_empty_code_witness:
  "build_huffman_tree (calculate_frequencies ''aaa'') = Inr (Node (Some CHR ''a'') 3 None None)
   \<and> generate_codes (Node (Some CHR ''a'') 3 None None) [] [] = Inr [(CHR ''a'', [])]"
  using single_symbol_empty_code [of 2 "CHR ''a''"] by (simp add: numeral_3_eq_3)

section \<open>The codebook\<close>

text \<open>
  The entries \<open>generate_codes\<close> adds under a node, in the order it adds them: each symbol
  with the path to its leaf, \<open>0\<close> for a step to the left and \<open>1\<close> for a step to the right,
  after the prefix \<open>p\<close>.
\<close>

fun codes :: "'a node \<Rightarrow> string \<Rightarrow> 'a codebook" where
  "codes (Node ch f l r) p =
     (case ch of
        Some c \<Rightarrow> [(c, p)]
      | None \<Rightarrow> (case l of None \<Rightarrow> [] | Some ln \<Rightarrow> codes ln (p @ ''0''))
                @ (case r of None \<Rightarrow> [] | Some rn \<Rightarrow> codes rn (p @ ''1'')))"

lemma codes_keys: "map fst (codes t p) = symbols t"
  by (induction t p rule: codes.induct) (auto split: option.splits)

lemma update_fresh: "k \<notin> fst ` set cb \<Longrightarrow> AList.update k v cb = cb @ [(k, v)]"
  by (induction cb) auto

lemma generate_codes_well_formed:
  "well_formed t \<Longrightarrow> distinct (map fst cb @ symbols t) \<Longrightarrow>
   generate_codes t p cb = Inr (cb @ codes t p)"
proof (induction t p cb rule: generate_codes.induct)
  case (1 ch f l r p cb)
  show ?case
  proof (cases ch)
    case (Some c)
    then show ?thesis using 1(3,4) by (simp add: update_fresh)
  next
    case None
    then obtain ln rn where lr: "l = Some ln" "r = Some rn"
      and wf: "well_formed ln" "well_formed rn"
      using 1(3) by (auto split: option.splits)
    have d: "distinct (map fst cb @ symbols ln)"
      using 1(4) None lr by auto
    have g1: "generate_codes ln (p @ ''0'') cb = Inr (cb @ codes ln (p @ ''0''))"
      using 1(1) None lr wf d by simp
    have d2: "distinct (map fst (cb @ codes ln (p @ ''0'')) @ symbols rn)"
      using 1(4) None lr by (auto simp: codes_keys)
    have g2: "generate_codes rn (p @ ''1'') (cb @ codes ln (p @ ''0''))
              = Inr ((cb @ codes ln (p @ ''0'')) @ codes rn (p @ ''1''))"
      using 1(2) [OF None lr(1) g1 lr(2)] wf d2 by simp
    show ?thesis using None lr g1 g2 by simp
  qed
qed

lemma codes_prefix: "(c, w) \<in> set (codes t p) \<Longrightarrow> prefix p w"
proof (induction t p arbitrary: c w rule: codes.induct)
  case (1 ch f l r p)
  show ?case
  proof (cases ch)
    case (Some a)
    then show ?thesis using 1(3) by simp
  next
    case None
    then consider ln where "l = Some ln" "(c, w) \<in> set (codes ln (p @ ''0''))"
      | rn where "r = Some rn" "(c, w) \<in> set (codes rn (p @ ''1''))"
      using 1(3) by (auto split: option.splits)
    then show ?thesis
    proof cases
      case 1
      then have "prefix (p @ ''0'') w" using "1.IH"(1) None by blast
      then show ?thesis using append_prefixD by blast
    next
      case 2
      then have "prefix (p @ ''1'') w" using "1.IH"(2) None by blast
      then show ?thesis using append_prefixD by blast
    qed
  qed
qed

lemma branches_differ:
  assumes "prefix (p @ [a]) w" and "prefix (p @ [b]) w'" and "prefix w w' \<or> prefix w' w"
  shows "a = b"
proof -
  obtain u where u: "w = p @ a # u" using assms(1) by (auto simp: prefix_def)
  obtain v where v: "w' = p @ b # v" using assms(2) by (auto simp: prefix_def)
  show ?thesis using assms(3) u v by (auto simp: prefix_def)
qed

lemma codes_prefix_free:
  "(c1, w1) \<in> set (codes t p) \<Longrightarrow> (c2, w2) \<in> set (codes t p) \<Longrightarrow> c1 \<noteq> c2 \<Longrightarrow>
   \<not> prefix w1 w2"
proof (induction t p arbitrary: c1 w1 c2 w2 rule: codes.induct)
  case (1 ch f l r p)
  show ?case
  proof (cases ch)
    case (Some a)
    then show ?thesis using 1(3,4,5) by simp
  next
    case None
    have in1: "(\<exists>ln. l = Some ln \<and> (c1, w1) \<in> set (codes ln (p @ ''0'')))
               \<or> (\<exists>rn. r = Some rn \<and> (c1, w1) \<in> set (codes rn (p @ ''1'')))"
      using 1(3) None by (auto split: option.splits)
    have in2: "(\<exists>ln. l = Some ln \<and> (c2, w2) \<in> set (codes ln (p @ ''0'')))
               \<or> (\<exists>rn. r = Some rn \<and> (c2, w2) \<in> set (codes rn (p @ ''1'')))"
      using 1(4) None by (auto split: option.splits)
    from in1 in2 show ?thesis
    proof (elim disjE exE conjE)
      fix ln ln' assume "l = Some ln" "(c1, w1) \<in> set (codes ln (p @ ''0''))"
        "l = Some ln'" "(c2, w2) \<in> set (codes ln' (p @ ''0''))"
      then show ?thesis using "1.IH"(1) [OF None] 1(5) by auto
    next
      fix rn rn' assume "r = Some rn" "(c1, w1) \<in> set (codes rn (p @ ''1''))"
        "r = Some rn'" "(c2, w2) \<in> set (codes rn' (p @ ''1''))"
      then show ?thesis using "1.IH"(2) [OF None] 1(5) by auto
    next
      fix ln rn assume "(c1, w1) \<in> set (codes ln (p @ ''0''))" "(c2, w2) \<in> set (codes rn (p @ ''1''))"
      then have "prefix (p @ ''0'') w1" "prefix (p @ ''1'') w2" by (auto dest: codes_prefix)
      then show ?thesis using branches_differ [of p "CHR ''0''" w1 "CHR ''1''" w2] by auto
    next
      fix ln rn assume "(c2, w2) \<in> set (codes ln (p @ ''0''))" "(c1, w1) \<in> set (codes rn (p @ ''1''))"
      then have "prefix (p @ ''0'') w2" "prefix (p @ ''1'') w1" by (auto dest: codes_prefix)
      then show ?thesis using branches_differ [of p "CHR ''0''" w2 "CHR ''1''" w1] by auto
    qed
  qed
qed

lemma codes_bit_string: "bit_string p \<Longrightarrow> (c, w) \<in> set (codes t p) \<Longrightarrow> bit_string w"
  by (induction t p arbitrary: c w rule: codes.induct)
     (fastforce simp: bit_string_def split: option.splits)

text \<open>The codebook of a frequency table: the tree, then its codes.\<close>

lemma codebook_of_table:
  assumes "fs \<noteq> []" and "distinct (map fst fs)"
  shows "\<exists>t. build_huffman_tree fs = Inr t \<and> generate_codes t [] [] = Inr (codes t [])
             \<and> mset (map fst (codes t [])) = mset (map fst fs)"
proof -
  obtain t where t: "build_huffman_tree fs = Inr t" "tree_inv fs [t]"
    using build_huffman_tree_nonempty [OF assms(1)] by blast
  have wf: "well_formed t" and sy: "mset (symbols t) = mset (map fst fs)"
    using t(2) by (simp_all add: tree_inv_def)
  have "distinct (symbols t)"
    using sy assms(2) by (metis mset_eq_imp_distinct_iff)
  then have "generate_codes t [] [] = Inr ([] @ codes t [])"
    using wf by (intro generate_codes_well_formed) simp_all
  then show ?thesis using t(1) sy by (auto simp: codes_keys)
qed

lemma foldl_reverse_update:
  "distinct (map fst acc @ map snd cb) \<Longrightarrow>
   foldl (\<lambda>d (k, v). AList.update v k d) acc cb = acc @ map (\<lambda>(k, v). (v, k)) cb"
proof (induction cb arbitrary: acc)
  case Nil
  show ?case by simp
next
  case (Cons e cb)
  obtain k v where e: "e = (k, v)" by (cases e)
  have "AList.update v k acc = acc @ [(v, k)]"
    using Cons.prems e by (intro update_fresh) auto
  moreover have "distinct (map fst (acc @ [(v, k)]) @ map snd cb)"
    using Cons.prems e by auto
  ultimately show ?case using Cons.IH [of "acc @ [(v, k)]"] e by simp
qed

lemma reverse_codebook_distinct:
  "distinct (map snd cb) \<Longrightarrow> reverse_codebook cb = map (\<lambda>(k, v). (v, k)) cb"
  unfolding reverse_codebook_def using foldl_reverse_update [of "[]" cb] by simp

lemma reverse_codebook_lookup:
  assumes "distinct (map snd cb)" and "(c, w) \<in> set cb"
  shows "map_of (reverse_codebook cb) w = Some c"
proof -
  have "map fst (map (\<lambda>(k, v). (v, k)) cb) = map snd cb" by (induction cb) auto
  then have "distinct (map fst (map (\<lambda>(k, v). (v, k)) cb))" using assms(1) by (simp only:)
  moreover have "(w, c) \<in> set (map (\<lambda>(k, v). (v, k)) cb)" using assms(2) by force
  ultimately show ?thesis
    unfolding reverse_codebook_distinct [OF assms(1)] by (rule map_of_is_SomeI)
qed

lemma codes_distinct:
  assumes "distinct (symbols t)"
  shows "distinct (map snd (codes t p))"
proof -
  let ?cs = "codes t p"
  have k: "distinct (map fst ?cs)" using assms by (simp add: codes_keys)
  show ?thesis
    unfolding distinct_conv_nth
  proof (intro allI impI)
    fix i j assume ij: "i < length (map snd ?cs)" "j < length (map snd ?cs)" "i \<noteq> j"
    then have "fst (?cs ! i) \<noteq> fst (?cs ! j)"
      using k by (simp add: distinct_conv_nth)
    moreover have "(fst (?cs ! i), snd (?cs ! i)) \<in> set ?cs" "(fst (?cs ! j), snd (?cs ! j)) \<in> set ?cs"
      using ij by simp_all
    ultimately have "\<not> prefix (snd (?cs ! i)) (snd (?cs ! j))"
      by (rule codes_prefix_free [rotated 2])
    then show "map snd ?cs ! i \<noteq> map snd ?cs ! j" using ij by auto
  qed
qed

text \<open>
  C4: for a frequency table with at least one entry (a dict: its keys are distinct) the tree
  is built, \<open>generate_codes\<close> returns a codebook, and in it the code of one symbol is never
  a prefix of (nor equal to) the code of another symbol; so the codes are distinct and the
  reverse codebook of \<open>decode_text\<close> maps each code back to its symbol.
\<close>

theorem generate_codes_prefix_free:
  assumes "fs \<noteq> []" and "distinct (map fst fs)"
  shows "\<exists>t cb. build_huffman_tree fs = Inr t \<and> generate_codes t [] [] = Inr cb
           \<and> (\<forall>(c1, w1)\<in>set cb. \<forall>(c2, w2)\<in>set cb. c1 \<noteq> c2 \<longrightarrow> \<not> prefix w1 w2)
           \<and> distinct (map snd cb)
           \<and> (\<forall>(c, w)\<in>set cb. map_of (reverse_codebook cb) w = Some c)"
proof -
  obtain t where t: "build_huffman_tree fs = Inr t" "generate_codes t [] [] = Inr (codes t [])"
    "mset (map fst (codes t [])) = mset (map fst fs)"
    using codebook_of_table [OF assms] by blast
  have "distinct (map fst (codes t []))"
    using t(3) assms(2) by (metis mset_eq_imp_distinct_iff)
  then have d: "distinct (map snd (codes t []))"
    by (intro codes_distinct) (simp add: codes_keys)
  have "\<forall>(c1, w1)\<in>set (codes t []). \<forall>(c2, w2)\<in>set (codes t []). c1 \<noteq> c2 \<longrightarrow> \<not> prefix w1 w2"
    using codes_prefix_free by fast
  moreover have "\<forall>(c, w)\<in>set (codes t []). map_of (reverse_codebook (codes t [])) w = Some c"
    using reverse_codebook_lookup [OF d] by fast
  ultimately show ?thesis using t(1,2) d by blast
qed

lemma abra_codes:
  "generate_codes abra_tree [] [] =
     Inr [(CHR ''a'', ''0''), (CHR ''d'', ''100''), (CHR ''c'', ''101''),
          (CHR ''r'', ''110''), (CHR ''b'', ''111'')]"
  by (simp add: abra_tree_def)

theorem generate_codes_prefix_free_witness:
  "calculate_frequencies ''abracadabra'' \<noteq> []
   \<and> distinct (map fst (calculate_frequencies ''abracadabra''))
   \<and> (\<exists>t cb. build_huffman_tree (calculate_frequencies ''abracadabra'') = Inr t
         \<and> generate_codes t [] [] = Inr cb
         \<and> (\<forall>(c1, w1)\<in>set cb. \<forall>(c2, w2)\<in>set cb. c1 \<noteq> c2 \<longrightarrow> \<not> prefix w1 w2)
         \<and> distinct (map snd cb)
         \<and> (\<forall>(c, w)\<in>set cb. map_of (reverse_codebook cb) w = Some c))"
proof -
  have a: "calculate_frequencies ''abracadabra'' \<noteq> []"
    and b: "distinct (map fst (calculate_frequencies ''abracadabra''))"
    by (simp_all add: abra_frequencies)
  show ?thesis
    using a b generate_codes_prefix_free [OF a b] by simp
qed

lemma encode_text_defined:
  "set text \<subseteq> fst ` set cb \<Longrightarrow> \<exists>bits. encode_text text cb = Inr bits"
proof (induction "text")
  case Nil
  show ?case by simp
next
  case (Cons c cs)
  then obtain bits where "encode_text cs cb = Inr bits" by auto
  moreover obtain w where "map_of cb c = Some w"
    using Cons.prems by (metis list.set_intros(1) map_of_eq_None_iff not_Some_eq subsetD)
  ultimately show ?case by simp
qed

text \<open>
  C10: for a non-empty text the tree and the codebook are built from the frequency table of
  that text, the keys of the codebook are exactly the symbols of the text, and
  \<open>encode_text\<close> returns a bit string: no lookup \<open>codebook[char]\<close> raises \<open>KeyError\<close>.
\<close>

theorem encode_text_no_KeyError:
  assumes "text \<noteq> []"
  shows "\<exists>t cb bits. build_huffman_tree (calculate_frequencies text) = Inr t
           \<and> generate_codes t [] [] = Inr cb
           \<and> set (map fst cb) = set text
           \<and> encode_text text cb = Inr bits"
proof -
  let ?fs = "calculate_frequencies text"
  have "set (map fst ?fs) = set text" by (rule calculate_frequencies_keys)
  then have ne: "?fs \<noteq> []" using assms by auto
  obtain t where t: "build_huffman_tree ?fs = Inr t" "generate_codes t [] [] = Inr (codes t [])"
    "mset (map fst (codes t [])) = mset (map fst ?fs)"
    using codebook_of_table [OF ne calculate_frequencies_distinct] by blast
  have k: "set (map fst (codes t [])) = set text"
    using t(3) calculate_frequencies_keys [of "text"] by (metis mset_eq_setD)
  then obtain bits where "encode_text text (codes t []) = Inr bits"
    using encode_text_defined [of "text" "codes t []"] by auto
  then show ?thesis using t(1,2) k by blast
qed

theorem encode_text_no_KeyError_witness:
  "''abracadabra'' \<noteq> []
   \<and> (\<exists>t cb bits. build_huffman_tree (calculate_frequencies ''abracadabra'') = Inr t
         \<and> generate_codes t [] [] = Inr cb
         \<and> set (map fst cb) = set ''abracadabra''
         \<and> encode_text ''abracadabra'' cb = Inr bits)"
proof -
  have a: "''abracadabra'' \<noteq> []" by simp
  show ?thesis using a encode_text_no_KeyError [OF a] by simp
qed

section \<open>The packed payload\<close>

lemma encode_text_concat:
  "encode_text text cb = Inr encoded \<Longrightarrow>
   encoded = concat (map (\<lambda>c. the (map_of cb c)) text) \<and> (\<forall>c\<in>set text. map_of cb c \<noteq> None)"
proof (induction "text" arbitrary: encoded)
  case Nil
  then show ?case by simp
next
  case (Cons c cs)
  then show ?case by (auto split: option.splits sum.splits)
qed

lemma bit_string_append [simp]: "bit_string (u @ v) = (bit_string u \<and> bit_string v)"
  by (simp add: bit_string_def)

lemma bit_string_replicate [simp]: "bit_string (replicate n CHR ''0'')"
  by (simp add: bit_string_def list_all_iff)

lemma bit_string_take: "bit_string s \<Longrightarrow> bit_string (take n s)"
  by (auto simp: bit_string_def list_all_iff dest: in_set_takeD)

lemma bit_string_drop: "bit_string s \<Longrightarrow> bit_string (drop n s)"
  by (auto simp: bit_string_def list_all_iff dest: in_set_dropD)

lemma encode_text_bit_string:
  assumes "encode_text text cb = Inr encoded" and "list_all (\<lambda>(c, w). bit_string w) cb"
  shows "bit_string encoded"
  using assms(1)
proof (induction "text" arbitrary: encoded)
  case Nil
  then show ?case by (simp add: bit_string_def)
next
  case (Cons c cs)
  then obtain w rest where w: "map_of cb c = Some w" "encode_text cs cb = Inr rest" "encoded = w @ rest"
    by (auto split: option.splits sum.splits)
  have "(c, w) \<in> set cb" using w(1) by (rule map_of_SomeD)
  then have "bit_string w" using assms(2) by (auto simp: list_all_iff)
  then show ?case using w Cons.IH by simp
qed

text \<open>The number \<open>int_base2\<close> returns on a string of binary digits.\<close>

definition bits_value :: "string \<Rightarrow> nat" where
  "bits_value s = foldl (\<lambda>n c. 2 * n + (if c = CHR ''1'' then 1 else 0)) 0 s"

lemma bits_value_snoc:
  "bits_value (s @ [c]) = 2 * bits_value s + (if c = CHR ''1'' then 1 else 0)"
  by (simp add: bits_value_def)

lemma bits_value_sum:
  "bits_value s = (\<Sum>i<length s. if s ! i = CHR ''1'' then 2 ^ (length s - 1 - i) else 0)"
proof (induction s rule: rev_induct)
  case Nil
  show ?case by (simp add: bits_value_def)
next
  case (snoc c s)
  have "(\<Sum>i<length s. if (s @ [c]) ! i = CHR ''1'' then 2 ^ (length (s @ [c]) - 1 - i) else 0)
        = (\<Sum>i<length s. 2 * (if s ! i = CHR ''1'' then 2 ^ (length s - 1 - i) else (0::nat)))"
  proof (rule sum.cong)
    fix i assume "i \<in> {..<length s}"
    then have i: "i < length s" by simp
    then have "length s - i = Suc (length s - 1 - i)" by simp
    then show "(if (s @ [c]) ! i = CHR ''1'' then 2 ^ (length (s @ [c]) - 1 - i) else 0)
               = 2 * (if s ! i = CHR ''1'' then 2 ^ (length s - 1 - i) else (0::nat))"
      using i by (simp add: nth_append)
  qed simp
  also have "\<dots> = 2 * bits_value s"
    by (simp add: snoc.IH sum_distrib_left)
  finally show ?case
    by (simp add: bits_value_snoc)
qed

lemma bits_value_less: "bits_value s < 2 ^ length s"
proof (induction s rule: rev_induct)
  case Nil
  show ?case by (simp add: bits_value_def)
next
  case (snoc c s)
  then show ?case by (simp add: bits_value_snoc)
qed

lemma int_base2_bits: "s \<noteq> [] \<Longrightarrow> bit_string s \<Longrightarrow> int_base2 s = Inr (bits_value s)"
  by (simp add: int_base2_def bits_value_def)

lemma bytearray_map:
  "(\<forall>x\<in>set xs. g x = Inr (h x) \<and> h x < 256) \<Longrightarrow> bytearray (map g xs) = Inr (map h xs)"
  by (induction xs) simp_all

lemma pad_arith:
  fixes n :: nat
  shows "(8 - n mod 8) mod 8 < 8 \<and> (n + (8 - n mod 8) mod 8) mod 8 = 0
         \<and> (n + (8 - n mod 8) mod 8 + 7) div 8 = (n + 7) div 8"
proof -
  define q r where "q = n div 8" and "r = n mod 8"
  have n: "n = 8 * q + r" and r: "r < 8" by (simp_all add: q_def r_def)
  have nr: "n mod 8 = r" by (simp add: r_def)
  from r consider "r = 0" | "r = 1" | "r = 2" | "r = 3" | "r = 4" | "r = 5" | "r = 6" | "r = 7"
    by linarith
  then show ?thesis
    unfolding nr by cases (simp_all add: n)
qed

lemma pad_length_props:
  "pad_length s < 8 \<and> (length s + pad_length s) mod 8 = 0
   \<and> (length s + pad_length s + 7) div 8 = (length s + 7) div 8"
  unfolding pad_length_def by (rule pad_arith)

lemma byte_array_value:
  assumes "bit_string encoded"
  shows "byte_array encoded =
           Inr (map (\<lambda>i. bits_value (take 8 (drop i (encoded @ replicate (pad_length encoded) CHR ''0''))))
                    (range8 (length encoded + pad_length encoded)))"
proof -
  let ?p = "encoded @ replicate (pad_length encoded) CHR ''0''"
  have len: "length ?p = length encoded + pad_length encoded" by simp
  have m8: "length ?p mod 8 = 0" using pad_length_props [of encoded] by simp
  have bp: "bit_string ?p" using assms by simp
  have "\<forall>i\<in>set (range8 (length ?p)).
          int_base2 (take 8 (drop i ?p)) = Inr (bits_value (take 8 (drop i ?p)))
          \<and> bits_value (take 8 (drop i ?p)) < 256"
  proof
    fix i assume "i \<in> set (range8 (length ?p))"
    then obtain k where k: "i = 8 * k" "k < (length ?p + 7) div 8"
      by (auto simp: range8_def)
    then have "8 * k + 8 \<le> length ?p" using m8 by presburger
    then have l8: "length (take 8 (drop i ?p)) = 8" using k(1) by simp
    then have ne: "take 8 (drop i ?p) \<noteq> []" by auto
    have bs: "bit_string (take 8 (drop i ?p))" using bp by (intro bit_string_take bit_string_drop)
    have "bits_value (take 8 (drop i ?p)) < 2 ^ length (take 8 (drop i ?p))"
      by (rule bits_value_less)
    then have "bits_value (take 8 (drop i ?p)) < 256" unfolding l8 by simp
    then show "int_base2 (take 8 (drop i ?p)) = Inr (bits_value (take 8 (drop i ?p)))
          \<and> bits_value (take 8 (drop i ?p)) < 256"
      using int_base2_bits [OF ne bs] by simp
  qed
  then have "bytearray (map (\<lambda>i. int_base2 (take 8 (drop i ?p))) (range8 (length ?p)))
             = Inr (map (\<lambda>i. bits_value (take 8 (drop i ?p))) (range8 (length ?p)))"
    by (rule bytearray_map)
  then show ?thesis
    unfolding byte_array_def Let_def len .
qed

lemma range8_length: "length (range8 n) = (n + 7) div 8"
  by (simp add: range8_def)

lemma range8_nth: "j < (n + 7) div 8 \<Longrightarrow> range8 n ! j = 8 * j"
  by (simp add: range8_def)

lemma chunk_in_range:
  fixes n j :: nat
  shows "n mod 8 = 0 \<Longrightarrow> j < (n + 7) div 8 \<Longrightarrow> 8 * j + 8 \<le> n"
  by presburger

lemma chunk_nth:
  "i < 8 \<Longrightarrow> 8 * j + 8 \<le> length p \<Longrightarrow> take 8 (drop (8 * j) p) ! i = p ! (8 * j + i)"
  by simp

lemma chunk_length: "8 * j + 8 \<le> length p \<Longrightarrow> length (take 8 (drop (8 * j) p)) = 8"
  by simp

lemma write_encoded_text_bytes:
  "encode_text text cb = Inr encoded \<Longrightarrow> byte_array encoded = Inr bs \<Longrightarrow>
   write_encoded_text file text cb = Inr (file @ bs)"
  by (simp add: write_encoded_text_def)

text \<open>
  C7: for a text whose every symbol has a code in the codebook (\<open>encode_text\<close> returns) and
  a codebook of bit strings, the encoded text is the concatenation of the codes of the
  symbols in their order; the pad has fewer than 8 zero bits and makes the length a multiple
  of 8; the bytes \<open>write_encoded_text\<close> appends to the file are \<open>ceil(len / 8)\<close> many, and
  byte \<open>j\<close> is the value of the bits \<open>8j .. 8j+7\<close> of the padded string, the first bit
  weighing \<open>2^7\<close> and the last \<open>2^0\<close>.
\<close>

theorem write_encoded_text_layout:
  assumes "encode_text text cb = Inr encoded" and "list_all (\<lambda>(c, w). bit_string w) cb"
  shows "encoded = concat (map (\<lambda>c. the (map_of cb c)) text)
         \<and> pad_length encoded < 8 \<and> (length encoded + pad_length encoded) mod 8 = 0
         \<and> (\<exists>bs. write_encoded_text file text cb = Inr (file @ bs)
               \<and> length bs = (length encoded + 7) div 8
               \<and> (\<forall>j<length bs. bs ! j =
                     (\<Sum>i<8. if (encoded @ replicate (pad_length encoded) CHR ''0'') ! (8 * j + i)
                                  = CHR ''1'' then 2 ^ (7 - i) else 0)))"
proof -
  let ?p = "encoded @ replicate (pad_length encoded) CHR ''0''"
  let ?bs = "map (\<lambda>i. bits_value (take 8 (drop i ?p))) (range8 (length encoded + pad_length encoded))"
  note pl = pad_length_props [of encoded]
  have bits: "bit_string encoded" using assms by (rule encode_text_bit_string)
  have w: "write_encoded_text file text cb = Inr (file @ ?bs)"
    using assms(1) byte_array_value [OF bits] by (rule write_encoded_text_bytes)
  have len: "length ?bs = (length encoded + 7) div 8"
    using pl by (simp add: range8_length)
  have val: "\<forall>j<length ?bs. ?bs ! j =
               (\<Sum>i<8. if ?p ! (8 * j + i) = CHR ''1'' then 2 ^ (7 - i) else 0)"
  proof (intro allI impI)
    fix j assume j: "j < length ?bs"
    then have j': "j < (length encoded + pad_length encoded + 7) div 8"
      by (simp add: range8_length)
    have lp: "length ?p = length encoded + pad_length encoded" by simp
    have "8 * j + 8 \<le> length ?p"
      unfolding lp using j' pl by (intro chunk_in_range) simp_all
    then have l8: "length (take 8 (drop (8 * j) ?p)) = 8" by (rule chunk_length)
    have "range8 (length encoded + pad_length encoded) ! j = 8 * j"
      using j' by (rule range8_nth)
    then have "?bs ! j = bits_value (take 8 (drop (8 * j) ?p))"
      using j' by (simp only: nth_map range8_length)
    also have "\<dots> = (\<Sum>i<8. if take 8 (drop (8 * j) ?p) ! i = CHR ''1'' then 2 ^ (8 - 1 - i) else 0)"
      using bits_value_sum [of "take 8 (drop (8 * j) ?p)"] unfolding l8 .
    also have "\<dots> = (\<Sum>i<8. if ?p ! (8 * j + i) = CHR ''1'' then 2 ^ (7 - i) else 0)"
    proof (rule sum.cong)
      fix i :: nat assume "i \<in> {..<8}"
      then have "i < 8" by simp
      then have "take 8 (drop (8 * j) ?p) ! i = ?p ! (8 * j + i)"
        using \<open>8 * j + 8 \<le> length ?p\<close> by (rule chunk_nth)
      then show "(if take 8 (drop (8 * j) ?p) ! i = CHR ''1'' then 2 ^ (8 - 1 - i) else (0::nat))
                 = (if ?p ! (8 * j + i) = CHR ''1'' then 2 ^ (7 - i) else 0)"
        by simp
    qed simp
    finally show "?bs ! j = (\<Sum>i<8. if ?p ! (8 * j + i) = CHR ''1'' then 2 ^ (7 - i) else 0)" .
  qed
  have e: "encoded = concat (map (\<lambda>c. the (map_of cb c)) text)"
    using encode_text_concat [OF assms(1)] by simp
  have p1: "pad_length encoded < 8" and p2: "(length encoded + pad_length encoded) mod 8 = 0"
    using pl by simp_all
  show ?thesis
    by (intro conjI exI [of _ ?bs]) (rule e p1 p2 w len val)+
qed

text \<open>The codebook of the text \<open>abracadabra\<close>.\<close>

definition abra_codebook :: "char codebook" where
  "abra_codebook =
     [(CHR ''a'', ''0''), (CHR ''d'', ''100''), (CHR ''c'', ''101''),
      (CHR ''r'', ''110''), (CHR ''b'', ''111'')]"

lemma abra_encode:
  "encode_text ''abracadabra'' abra_codebook = Inr ''01111100101010001111100''"
  by (simp add: abra_codebook_def)

lemma abra_bytes: "byte_array ''01111100101010001111100'' = Inr [124, 168, 248]"
  by code_simp

theorem write_encoded_text_layout_witness:
  "encode_text ''abracadabra'' abra_codebook = Inr ''01111100101010001111100''
   \<and> list_all (\<lambda>(c, w). bit_string w) abra_codebook
   \<and> pad_length ''01111100101010001111100'' < 8
   \<and> write_encoded_text [] ''abracadabra'' abra_codebook = Inr [124, 168, 248]"
proof -
  have b: "list_all (\<lambda>(c, w). bit_string w) abra_codebook"
    by (simp add: abra_codebook_def bit_string_def)
  have "pad_length ''01111100101010001111100'' < 8"
    using write_encoded_text_layout [OF abra_encode b] by blast
  moreover have "write_encoded_text [] ''abracadabra'' abra_codebook = Inr [124, 168, 248]"
    using write_encoded_text_bytes [OF abra_encode abra_bytes, of "[]"] by simp
  ultimately show ?thesis using abra_encode b by simp
qed

section \<open>The container: compress_file and decompress_file\<close>

lemma deser_entries_ser:
  "deser_entries (length cb) (concat (map ser_entry cb) @ rest) = Inr cb"
proof (induction cb)
  case Nil
  show ?case by simp
next
  case (Cons e cb)
  obtain k v where e: "e = (k, v)" by (cases e)
  have "map char_of (map (of_char :: char \<Rightarrow> nat) v) = v"
    by (induction v) simp_all
  then show ?case
    using Cons.IH by (simp add: e ser_entry_def)
qed

lemma simple_pickle_roundtrip: "pickle_roundtrip simple_pickle"
  by (simp add: pickle_roundtrip_def simple_pickle_def deser_entries_ser)



lemma decompress_file_container:
  assumes "pickle_roundtrip P" and "distinct (map fst cb)"
  shows "read_header P (dumps P cb @ bs) = Inr cb"
    and "byte_data P (dumps P cb @ bs) cb = bs"
    and "decompress_file P (dumps P cb @ bs) = Inr (decode_text (concat (map format_08b bs)) cb)"
proof -
  show h: "read_header P (dumps P cb @ bs) = Inr cb"
    using assms by (simp add: pickle_roundtrip_def read_header_def)
  show b: "byte_data P (dumps P cb @ bs) cb = bs"
    by (simp add: byte_data_def)
  show "decompress_file P (dumps P cb @ bs) = Inr (decode_text (concat (map format_08b bs)) cb)"
    by (simp add: decompress_file_def h read_encoded_text_def b)
qed

lemma abra_codebook_distinct: "distinct (map fst abra_codebook)"
  by (simp add: abra_codebook_def)

lemma abra_compress:
  "compress_file P ''abracadabra'' = Inr (dumps P abra_codebook @ [124, 168, 248])"
proof -
  have g: "generate_codes abra_tree [] [] = Inr abra_codebook"
    using abra_codes by (simp add: abra_codebook_def)
  have w: "write_encoded_text (write_header P abra_codebook) ''abracadabra'' abra_codebook
           = Inr (write_header P abra_codebook @ [124, 168, 248])"
    using abra_encode abra_bytes by (rule write_encoded_text_bytes)
  show ?thesis
    unfolding compress_file_def Let_def abra_build by (simp add: g w) (simp add: write_header_def)
qed

lemma abra_decode:
  "decode_text (concat (map format_08b [124, 168, 248])) abra_codebook = ''abracadabraa''"
  unfolding abra_codebook_def by code_simp


lemma abra_header:
  "dumps simple_pickle abra_codebook =
     [5, 97, 1, 48, 100, 3, 49, 48, 48, 99, 3, 49, 48, 49, 114, 3, 49, 49, 48, 98, 3, 49, 49, 49]"
  by (simp add: simple_pickle_def abra_codebook_def ser_entry_def)

text \<open>
  C1: the code at the text \<open>abracadabra\<close>, for every serializer that returns the codebook it
  was given. The codes take 23 bits, so \<open>write_encoded_text\<close> pads one zero bit; the file
  does not record the number of bits or symbols, the code of \<open>a\<close> is \<open>0\<close>, and \<open>decode_text\<close>
  reads the pad as one more \<open>a\<close>: compressing and then decompressing returns
  \<open>abracadabraa\<close>, twelve symbols for eleven.
\<close>

theorem roundtrip_abracadabra_extra_symbol:
  assumes "pickle_roundtrip P"
  shows "compress_file P ''abracadabra'' = Inr (dumps P abra_codebook @ [124, 168, 248])
         \<and> decompress_file P (dumps P abra_codebook @ [124, 168, 248]) = Inr ''abracadabraa''"
proof -
  have "decompress_file P (dumps P abra_codebook @ [124, 168, 248])
        = Inr (decode_text (concat (map format_08b [124, 168, 248])) abra_codebook)"
    using assms abra_codebook_distinct by (rule decompress_file_container(3))
  then have "decompress_file P (dumps P abra_codebook @ [124, 168, 248]) = Inr ''abracadabraa''"
    unfolding abra_decode .
  with abra_compress [of P] show ?thesis by (rule conjI)
qed

theorem roundtrip_abracadabra_extra_symbol_witness:
  "pickle_roundtrip simple_pickle
   \<and> compress_file simple_pickle ''abracadabra'' =
       Inr [5, 97, 1, 48, 100, 3, 49, 48, 48, 99, 3, 49, 48, 49, 114, 3, 49, 49, 48, 98, 3, 49, 49, 49,
            124, 168, 248]
   \<and> decompress_file simple_pickle
        [5, 97, 1, 48, 100, 3, 49, 48, 48, 99, 3, 49, 48, 49, 114, 3, 49, 49, 48, 98, 3, 49, 49, 49,
         124, 168, 248] = Inr ''abracadabraa''"
  using roundtrip_abracadabra_extra_symbol [OF simple_pickle_roundtrip] simple_pickle_roundtrip
  by (simp add: abra_header)






end
